theory Spec2Isabelle
  imports Complex_Main "HOL-Library.Word" "HOL-Library.Log_Nat"
begin

unbundle bit_operations_syntax

section \<open>Go values used by the renderer\<close>

text \<open>
  The rasterizer of \<^verbatim>\<open>renderer.go\<close> works on Go's \<^verbatim>\<open>image.RGBA\<close>: a byte slice
  \<^verbatim>\<open>Pix\<close>, a row length \<^verbatim>\<open>Stride\<close> and a bounding rectangle. Go's \<^verbatim>\<open>int\<close> is 64 bits wide;
  pixel coordinates and offsets stay far below that, so they are modelled as unbounded
  integers. Bytes are 8-bit words and the blending arithmetic runs on 32-bit words, as in
  the source. An index outside a slice panics in Go; the model returns the panic as a
  value.
\<close>

type_synonym uint8 = "8 word"
type_synonym uint32 = "32 word"

datatype panic = IndexOutOfRange | DivideByZero | SliceOutOfRange | NonFiniteFloat

record RGBA =
  R :: uint8
  G :: uint8
  B :: uint8
  A :: uint8

record Point =
  X :: int
  Y :: int

record Rectangle =
  Min_pt :: Point
  Max_pt :: Point

record image_RGBA =
  Pix :: "uint8 list"
  Stride :: int
  Rect :: Rectangle

text \<open>Go's \<^verbatim>\<open>image.Rect\<close> orders its corners; \<^verbatim>\<open>Empty\<close>, \<^verbatim>\<open>Dx\<close>, \<^verbatim>\<open>Dy\<close> and
  \<^verbatim>\<open>Intersect\<close> are those of package \<^verbatim>\<open>image\<close>.\<close>

definition image_Rect :: "int \<Rightarrow> int \<Rightarrow> int \<Rightarrow> int \<Rightarrow> Rectangle" where
  "image_Rect x0 y0 x1 y1 =
     \<lparr>Min_pt = \<lparr>X = min x0 x1, Y = min y0 y1\<rparr>, Max_pt = \<lparr>X = max x0 x1, Y = max y0 y1\<rparr>\<rparr>"

definition Empty :: "Rectangle \<Rightarrow> bool" where
  "Empty r \<longleftrightarrow> X (Min_pt r) \<ge> X (Max_pt r) \<or> Y (Min_pt r) \<ge> Y (Max_pt r)"

definition Dx :: "Rectangle \<Rightarrow> int" where
  "Dx r = X (Max_pt r) - X (Min_pt r)"

definition Dy :: "Rectangle \<Rightarrow> int" where
  "Dy r = Y (Max_pt r) - Y (Min_pt r)"

definition ZR :: Rectangle where
  "ZR = \<lparr>Min_pt = \<lparr>X = 0, Y = 0\<rparr>, Max_pt = \<lparr>X = 0, Y = 0\<rparr>\<rparr>"

definition Intersect :: "Rectangle \<Rightarrow> Rectangle \<Rightarrow> Rectangle" where
  "Intersect r s =
     (let r' = \<lparr>Min_pt = \<lparr>X = max (X (Min_pt r)) (X (Min_pt s)), Y = max (Y (Min_pt r)) (Y (Min_pt s))\<rparr>,
                Max_pt = \<lparr>X = min (X (Max_pt r)) (X (Max_pt s)), Y = min (Y (Max_pt r)) (Y (Max_pt s))\<rparr>\<rparr>
      in if Empty r' then ZR else r')"

definition Bounds :: "image_RGBA \<Rightarrow> Rectangle" where
  "Bounds m = Rect m"

text \<open>\<^verbatim>\<open>image.NewRGBA(r)\<close>: a zeroed buffer of \<^verbatim>\<open>4 * Dx * Dy\<close> bytes with stride \<^verbatim>\<open>4 * Dx\<close>.\<close>

definition NewRGBA :: "Rectangle \<Rightarrow> image_RGBA" where
  "NewRGBA r = \<lparr>Pix = replicate (nat (4 * Dx r * Dy r)) 0, Stride = 4 * Dx r, Rect = r\<rparr>"

text \<open>The shape every canvas of the renderer has: it was made by \<^verbatim>\<open>image.NewRGBA\<close>.\<close>

definition canvas_ok :: "image_RGBA \<Rightarrow> bool" where
  "canvas_ok m \<longleftrightarrow>
     X (Min_pt (Rect m)) \<le> X (Max_pt (Rect m)) \<and> Y (Min_pt (Rect m)) \<le> Y (Max_pt (Rect m)) \<and>
     Stride m = 4 * Dx (Rect m) \<and> int (length (Pix m)) = Stride m * Dy (Rect m)"

definition in_canvas :: "image_RGBA \<Rightarrow> int \<Rightarrow> int \<Rightarrow> bool" where
  "in_canvas m x y \<longleftrightarrow>
     X (Min_pt (Rect m)) \<le> x \<and> x < X (Max_pt (Rect m)) \<and>
     Y (Min_pt (Rect m)) \<le> y \<and> y < Y (Max_pt (Rect m))"

text \<open>The byte offset of pixel \<open>(x, y)\<close>, as \<^verbatim>\<open>blendPixel\<close> computes it.\<close>

definition pix_off :: "image_RGBA \<Rightarrow> int \<Rightarrow> int \<Rightarrow> int" where
  "pix_off m x y = (y - Y (Min_pt (Rect m))) * Stride m + (x - X (Min_pt (Rect m))) * 4"

section \<open>The renderer and its pixel operations\<close>

record 'fc renderer =
  img :: image_RGBA
  scaleX :: rat
  scaleY :: rat
  fontCache :: "'fc option"
  dpi :: rat

definition with_pix :: "'fc renderer \<Rightarrow> uint8 list \<Rightarrow> 'fc renderer" where
  "with_pix r p = r\<lparr>img := (img r)\<lparr>Pix := p\<rparr>\<rparr>"

text \<open>\<^verbatim>\<open>blendPixel\<close> (renderer.go, lines 246-269). The four bytes of the pixel are read
  and written one after the other, each through its own index.\<close>

definition blendPixel :: "int \<Rightarrow> int \<Rightarrow> RGBA \<Rightarrow> 'fc renderer \<Rightarrow> panic + 'fc renderer" where
  "blendPixel x y c r =
     (let b = Bounds (img r) in
      if x < X (Min_pt b) \<or> x \<ge> X (Max_pt b) \<or> y < Y (Min_pt b) \<or> y \<ge> Y (Max_pt b) then Inr r
      else if A c = 0 then Inr r
      else
        let off = (y - Y (Min_pt b)) * Stride (img r) + (x - X (Min_pt b)) * 4;
            pix = Pix (img r)
        in if off < 0 \<or> int (length pix) \<le> off + 3 then Inl IndexOutOfRange
           else if A c = 255 then
             Inr (with_pix r
               (pix[nat off := R c, nat off + 1 := G c, nat off + 2 := B c, nat off + 3 := 255]))
           else
             let a = (ucast (A c) :: uint32);
                 ia = 255 - a;
                 pix1 = pix[nat off :=
                   ucast ((ucast (R c) * a + ucast (pix ! nat off) * ia) div 255)];
                 pix2 = pix1[nat off + 1 :=
                   ucast ((ucast (G c) * a + ucast (pix1 ! (nat off + 1)) * ia) div 255)];
                 pix3 = pix2[nat off + 2 :=
                   ucast ((ucast (B c) * a + ucast (pix2 ! (nat off + 2)) * ia) div 255)];
                 pix4 = pix3[nat off + 3 :=
                   ucast (ucast (pix3 ! (nat off + 3))
                          + (255 - ucast (pix3 ! (nat off + 3))) * a div 255)]
             in Inr (with_pix r pix4))"

section \<open>Floating point\<close>

text \<open>
  Go's \<^verbatim>\<open>float64\<close> is IEEE 754 binary64. A finite value of that type is a rational
  number, and every arithmetic operation returns the exact result rounded to the nearest
  representable value, ties to the even significand. \<open>f64\<close> is that rounding: 53
  significant bits, gradual underflow below \<open>2^-1022\<close>. Infinities and NaN are not modelled
  (no result below stays outside the finite range on the inputs considered).
\<close>

definition round_half_even :: "rat \<Rightarrow> int" where
  "round_half_even x =
     (let f = \<lfloor>x\<rfloor>; d = x - of_int f
      in if d < 1 / 2 then f else if 1 / 2 < d then f + 1 else if even f then f else f + 1)"

text \<open>\<open>ilog2 q\<close> is the exponent \<open>e\<close> with \<open>2^e \<le> q < 2^(e+1)\<close>, for \<open>q > 0\<close>.\<close>

definition ilog2 :: "rat \<Rightarrow> int" where
  "ilog2 q = (let (a, b) = quotient_of q; d = bitlen a - bitlen b
              in if 2 powi d \<le> q then d else d - 1)"

definition quantum :: "rat \<Rightarrow> rat" where
  "quantum q = 2 powi (max (ilog2 \<bar>q\<bar>) (- 1022) - 52)"

definition f64 :: "rat \<Rightarrow> rat" where
  "f64 q = (if q = 0 then 0
            else sgn q * of_int (round_half_even (\<bar>q\<bar> / quantum q)) * quantum q)"

definition fadd :: "rat \<Rightarrow> rat \<Rightarrow> rat" where "fadd a b = f64 (a + b)"
definition fsub :: "rat \<Rightarrow> rat \<Rightarrow> rat" where "fsub a b = f64 (a - b)"
definition fmul :: "rat \<Rightarrow> rat \<Rightarrow> rat" where "fmul a b = f64 (a * b)"
definition fdiv :: "rat \<Rightarrow> rat \<Rightarrow> rat" where "fdiv a b = f64 (a / b)"

text \<open>\<^verbatim>\<open>float64(n)\<close> of an integer, and \<^verbatim>\<open>int(f)\<close>, \<^verbatim>\<open>uint8(f)\<close> of a float: the
  conversion to an integer drops the fraction (truncation towards zero).\<close>

definition float64_of_int :: "int \<Rightarrow> rat" where
  "float64_of_int n = f64 (of_int n)"

definition go_int :: "rat \<Rightarrow> int" where
  "go_int q = (if q < 0 then - \<lfloor>- q\<rfloor> else \<lfloor>q\<rfloor>)"

definition go_uint8 :: "rat \<Rightarrow> uint8" where
  "go_uint8 q = word_of_int (go_int q)"

section \<open>Control flow\<close>

text \<open>Sequencing of calls that may panic, and the counted loop
  \<^verbatim>\<open>for i := lo; i < hi; i++ { body }\<close>.\<close>

definition then_do :: "panic + 'a \<Rightarrow> ('a \<Rightarrow> panic + 'b) \<Rightarrow> panic + 'b" where
  "then_do m f = (case m of Inl e \<Rightarrow> Inl e | Inr v \<Rightarrow> f v)"

fun iter :: "nat \<Rightarrow> int \<Rightarrow> (int \<Rightarrow> 's \<Rightarrow> panic + 's) \<Rightarrow> 's \<Rightarrow> panic + 's" where
  "iter 0 i body s = Inr s"
| "iter (Suc n) i body s = then_do (body i s) (iter n (i + 1) body)"

definition for_range :: "int \<Rightarrow> int \<Rightarrow> (int \<Rightarrow> 's \<Rightarrow> panic + 's) \<Rightarrow> 's \<Rightarrow> panic + 's" where
  "for_range lo hi body s = iter (nat (hi - lo)) lo body s"

section \<open>Rectangle fills\<close>

text \<open>\<^verbatim>\<open>blendPixelF\<close> (lines 272-281).\<close>

definition blendPixelF :: "int \<Rightarrow> int \<Rightarrow> RGBA \<Rightarrow> rat \<Rightarrow> 'fc renderer \<Rightarrow> panic + 'fc renderer" where
  "blendPixelF x y c coverage r =
     (if coverage \<le> 0 then Inr r
      else if coverage \<ge> 1 then blendPixel x y c r
      else blendPixel x y
             \<lparr>R = R c, G = G c, B = B c,
              A = go_uint8 (fmul (float64_of_int (uint (A c))) coverage)\<rparr> r)"

text \<open>
  \<^verbatim>\<open>fillRectFast\<close> (lines 284-286) is one call of the standard library:
  \<^verbatim>\<open>draw.Draw(r.img, rect, &image.Uniform{c}, image.Point{}, draw.Over)\<close>. The library clips
  \<open>rect\<close> to the bounds of the destination and to those of the uniform source (a square
  of side \<open>2 * 10^9\<close> moved to the corner of \<open>rect\<close>), returns on an empty rectangle, and
  composes the colour over every pixel left: a plain store of \<open>(R, G, B, A)\<close> when the
  colour is opaque, and \<open>(dst * a div m + src) >> 8\<close> per channel otherwise, with
  \<open>m = 0xffff\<close>, \<open>src = ch * 0x101\<close> and \<open>a = (m - A * 0x101) * 0x101\<close>.
\<close>

definition rect_Add :: "Rectangle \<Rightarrow> Point \<Rightarrow> Rectangle" where
  "rect_Add r p =
     \<lparr>Min_pt = \<lparr>X = X (Min_pt r) + X p, Y = Y (Min_pt r) + Y p\<rparr>,
      Max_pt = \<lparr>X = X (Max_pt r) + X p, Y = Y (Max_pt r) + Y p\<rparr>\<rparr>"

definition uniform_Bounds :: Rectangle where
  "uniform_Bounds = \<lparr>Min_pt = \<lparr>X = - 1000000000, Y = - 1000000000\<rparr>,
                     Max_pt = \<lparr>X = 1000000000, Y = 1000000000\<rparr>\<rparr>"

definition draw_clip :: "image_RGBA \<Rightarrow> Rectangle \<Rightarrow> Rectangle" where
  "draw_clip dst r = Intersect (Intersect r (Bounds dst)) (rect_Add uniform_Bounds (Min_pt r))"

definition over_channel :: "uint8 \<Rightarrow> uint8 \<Rightarrow> uint8 \<Rightarrow> uint8" where
  "over_channel dst ch alpha =
     (let m = (65535 :: uint32);
          a = (m - ucast alpha * 257) * 257
      in ucast (drop_bit 8 (ucast dst * a div m + ucast ch * 257)))"

definition fill_pixel :: "RGBA \<Rightarrow> int \<Rightarrow> uint8 list \<times> int \<Rightarrow> panic + uint8 list \<times> int" where
  "fill_pixel c dx st =
     (let pix = fst st; i = snd st
      in if i < 0 \<or> int (length pix) \<le> i + 3 then Inl IndexOutOfRange
         else if A c = 255 then
           Inr (pix[nat i := R c, nat i + 1 := G c, nat i + 2 := B c, nat i + 3 := A c], i + 4)
         else
           Inr (pix[nat i := over_channel (pix ! nat i) (R c) (A c),
                    nat i + 1 := over_channel (pix ! (nat i + 1)) (G c) (A c),
                    nat i + 2 := over_channel (pix ! (nat i + 2)) (B c) (A c),
                    nat i + 3 := over_channel (pix ! (nat i + 3)) (A c) (A c)], i + 4))"

definition fill_row :: "image_RGBA \<Rightarrow> Rectangle \<Rightarrow> RGBA \<Rightarrow> int \<Rightarrow> uint8 list \<Rightarrow> panic + uint8 list" where
  "fill_row dst r c y pix =
     then_do (for_range 0 (Dx r) (fill_pixel c) (pix, pix_off dst (X (Min_pt r)) y))
             (\<lambda>st. Inr (fst st))"

definition fillRectFast :: "Rectangle \<Rightarrow> RGBA \<Rightarrow> 'fc renderer \<Rightarrow> panic + 'fc renderer" where
  "fillRectFast rect c r =
     (let r' = draw_clip (img r) rect
      in if Empty r' then Inr r
         else then_do (for_range (Y (Min_pt r')) (Y (Max_pt r')) (fill_row (img r) r' c) (Pix (img r)))
                      (\<lambda>pix. Inr (with_pix r pix)))"

text \<open>\<^verbatim>\<open>fillRectBlend\<close> (lines 289-320). The inner loop carries the byte offset \<open>off\<close>
  along with the buffer.\<close>

definition blend_step :: "uint32 \<Rightarrow> uint32 \<Rightarrow> uint32 \<Rightarrow> uint32 \<Rightarrow> uint32 \<Rightarrow> int
      \<Rightarrow> uint8 list \<times> int \<Rightarrow> panic + uint8 list \<times> int" where
  "blend_step a ia cr cg cb dx st =
     (let pix = fst st; off = snd st
      in if off < 0 \<or> int (length pix) \<le> off + 3 then Inl IndexOutOfRange
         else
           let pix1 = pix[nat off := ucast ((cr + ucast (pix ! nat off) * ia) div 255)];
               pix2 = pix1[nat off + 1 := ucast ((cg + ucast (pix1 ! (nat off + 1)) * ia) div 255)];
               pix3 = pix2[nat off + 2 := ucast ((cb + ucast (pix2 ! (nat off + 2)) * ia) div 255)];
               pix4 = pix3[nat off + 3 :=
                        ucast (ucast (pix3 ! (nat off + 3))
                               + (255 - ucast (pix3 ! (nat off + 3))) * a div 255)]
           in Inr (pix4, off + 4))"

definition blend_row :: "uint32 \<Rightarrow> uint32 \<Rightarrow> uint32 \<Rightarrow> uint32 \<Rightarrow> uint32 \<Rightarrow> int \<Rightarrow> int \<Rightarrow> int \<Rightarrow> int
      \<Rightarrow> int \<Rightarrow> uint8 list \<Rightarrow> panic + uint8 list" where
  "blend_row a ia cr cg cb stride minX minY w dy pix =
     then_do (for_range 0 w (blend_step a ia cr cg cb) (pix, (minY + dy) * stride + minX * 4))
             (\<lambda>st. Inr (fst st))"

definition fillRectBlend :: "Rectangle \<Rightarrow> RGBA \<Rightarrow> 'fc renderer \<Rightarrow> panic + 'fc renderer" where
  "fillRectBlend rect0 c r =
     (let b = Bounds (img r);
          rect = Intersect rect0 b
      in if Empty rect then Inr r
         else if A c = 0 then Inr r
         else if A c = 255 then fillRectFast rect c r
         else
           let a = (ucast (A c) :: uint32);
               ia = 255 - a;
               cr = ucast (R c) * a; cg = ucast (G c) * a; cb = ucast (B c) * a;
               pix = Pix (img r);
               stride = Stride (img r);
               minX = X (Min_pt rect) - X (Min_pt b);
               minY = Y (Min_pt rect) - Y (Min_pt b);
               w = Dx rect
           in then_do (for_range 0 (Dy rect) (blend_row a ia cr cg cb stride minX minY w) pix)
                      (\<lambda>pix'. Inr (with_pix r pix')))"

section \<open>Outlines built on the pixel operations\<close>

text \<open>\<^verbatim>\<open>drawRect\<close> (lines 833-844).\<close>

definition drawRect :: "Rectangle \<Rightarrow> RGBA \<Rightarrow> int \<Rightarrow> 'fc renderer \<Rightarrow> panic + 'fc renderer" where
  "drawRect rect c width r =
     for_range 0 width
       (\<lambda>i r.
          then_do (fillRectBlend (image_Rect (X (Min_pt rect)) (Y (Min_pt rect) + i)
                                    (X (Max_pt rect)) (Y (Min_pt rect) + i + 1)) c r) (\<lambda>r.
          then_do (fillRectBlend (image_Rect (X (Min_pt rect)) (Y (Max_pt rect) - 1 - i)
                                    (X (Max_pt rect)) (Y (Max_pt rect) - i)) c r) (\<lambda>r.
          for_range (Y (Min_pt rect)) (Y (Max_pt rect))
            (\<lambda>y r. then_do (blendPixel (X (Min_pt rect) + i) y c r)
                             (blendPixel (X (Max_pt rect) - 1 - i) y c)) r)))
       r"

text \<open>Go's \<^verbatim>\<open>%\<close> truncates towards zero and panics on a zero divisor.\<close>

definition go_rem :: "int \<Rightarrow> int \<Rightarrow> panic + int" where
  "go_rem a b = (if b = 0 then Inl DivideByZero else Inr (sgn a * (\<bar>a\<bar> mod \<bar>b\<bar>)))"

text \<open>\<^verbatim>\<open>drawDashedHLine\<close>, \<^verbatim>\<open>drawDashedVLine\<close> (lines 863-879) and
  \<^verbatim>\<open>drawRectBorder\<close> (lines 846-861).\<close>

definition drawDashedHLine :: "int \<Rightarrow> int \<Rightarrow> int \<Rightarrow> RGBA \<Rightarrow> int \<Rightarrow> int \<Rightarrow> 'fc renderer
      \<Rightarrow> panic + 'fc renderer" where
  "drawDashedHLine x1 x2 y c dashLen gapLen r =
     (let period = dashLen + gapLen
      in for_range x1 x2
           (\<lambda>x r. then_do (go_rem (x - x1) period)
                     (\<lambda>m. if m < dashLen then blendPixel x y c r else Inr r)) r)"

definition drawDashedVLine :: "int \<Rightarrow> int \<Rightarrow> int \<Rightarrow> RGBA \<Rightarrow> int \<Rightarrow> int \<Rightarrow> 'fc renderer
      \<Rightarrow> panic + 'fc renderer" where
  "drawDashedVLine x y1 y2 c dashLen gapLen r =
     (let period = dashLen + gapLen
      in for_range y1 y2
           (\<lambda>y r. then_do (go_rem (y - y1) period)
                     (\<lambda>m. if m < dashLen then blendPixel x y c r else Inr r)) r)"

text \<open>\<^verbatim>\<open>BorderStyle\<close> is a string type with four named values.\<close>

type_synonym BorderStyle = string

definition BorderNone :: BorderStyle where "BorderNone = ''none''"
definition BorderSolid :: BorderStyle where "BorderSolid = ''solid''"
definition BorderDash :: BorderStyle where "BorderDash = ''dash''"
definition BorderDot :: BorderStyle where "BorderDot = ''dot''"

definition drawRectBorder :: "Rectangle \<Rightarrow> RGBA \<Rightarrow> int \<Rightarrow> BorderStyle \<Rightarrow> 'fc renderer
      \<Rightarrow> panic + 'fc renderer" where
  "drawRectBorder rect c width style r =
     (if style = BorderSolid \<or> style = BorderNone then drawRect rect c width r
      else
        let dashLen = (if style = BorderDot then 2 else 6);
            gapLen = (if style = BorderDot then 2 else 4)
        in for_range 0 width
             (\<lambda>i r.
                then_do (drawDashedHLine (X (Min_pt rect)) (X (Max_pt rect)) (Y (Min_pt rect) + i)
                           c dashLen gapLen r) (\<lambda>r.
                then_do (drawDashedHLine (X (Min_pt rect)) (X (Max_pt rect)) (Y (Max_pt rect) - 1 - i)
                           c dashLen gapLen r) (\<lambda>r.
                then_do (drawDashedVLine (X (Min_pt rect) + i) (Y (Min_pt rect)) (Y (Max_pt rect))
                           c dashLen gapLen r)
                  (drawDashedVLine (X (Max_pt rect) - 1 - i) (Y (Min_pt rect)) (Y (Max_pt rect))
                           c dashLen gapLen))))
             r)"

text \<open>Two renderer states are \<open>same_frame\<close> when they differ at most in the contents of
  the pixel buffer, whose length is the same.\<close>

definition same_frame :: "'fc renderer \<Rightarrow> 'fc renderer \<Rightarrow> bool" where
  "same_frame r r' \<longleftrightarrow>
     r' = with_pix r (Pix (img r')) \<and> length (Pix (img r')) = length (Pix (img r))"

text \<open>Channel \<open>k\<close> (0 = red, 1 = green, 2 = blue, 3 = alpha) of the pixel \<open>(x, y)\<close>.\<close>

definition byte_at :: "image_RGBA \<Rightarrow> int \<Rightarrow> int \<Rightarrow> nat \<Rightarrow> uint8" where
  "byte_at m x y k = Pix m ! (nat (pix_off m x y) + k)"

text \<open>A two-pixel canvas used to run the operations on concrete data.\<close>

definition demo_renderer :: "unit renderer" where
  "demo_renderer = \<lparr>img = \<lparr>Pix = [10, 20, 30, 40, 100, 110, 120, 130], Stride = 8,
       Rect = image_Rect 0 0 2 1\<rparr>, scaleX = 1, scaleY = 1, fontCache = None, dpi = 96\<rparr>"

section \<open>Presentations, options and the parts taken as given\<close>

text \<open>
  The model of a presentation keeps what \<^verbatim>\<open>SlideToImage\<close> reads: the slides with their
  shapes and background, and the layout with the slide size \<open>CX\<close>, \<open>CY\<close> in EMU
  (\<^verbatim>\<open>int64\<close>). \<^verbatim>\<open>Color\<close> is the 8-character ARGB hex string of the source.
\<close>

record Color =
  ARGB :: string

type_synonym FillType = int

definition FillNone :: FillType where "FillNone = 0"
definition FillSolid :: FillType where "FillSolid = 1"
definition FillGradientLinear :: FillType where "FillGradientLinear = 2"
definition FillGradientPath :: FillType where "FillGradientPath = 3"

record Fill =
  Type :: FillType
  Color :: Color
  EndColor :: Color
  Rotation :: int

record DrawingShape =
  offsetX :: int
  offsetY :: int
  width :: int
  height :: int
  data :: "uint8 list"
  path :: string
  rotation :: int
  flipHorizontal :: bool
  flipVertical :: bool

text \<open>A shape is a picture (\<^verbatim>\<open>*DrawingShape\<close>) or one of the other seven kinds, which are
  kept abstract.\<close>

datatype 'sh Shape = Drawing DrawingShape | OtherShape 'sh

record 'sh Slide =
  shapes :: "'sh Shape list"
  background :: "Fill option"

record DocumentLayout =
  CX :: int
  CY :: int

record 'sh Presentation =
  slides :: "'sh Slide list"
  layout :: DocumentLayout

datatype ImageFormat = ImageFormatPNG | ImageFormatJPEG

record 'fc RenderOptions =
  Width :: int
  Format :: ImageFormat
  JPEGQuality :: int
  BackgroundColor :: "RGBA option"
  DPI :: rat
  FontDirs :: "string list"
  FontCache :: "'fc option"

definition DefaultRenderOptions :: "'fc RenderOptions" where
  "DefaultRenderOptions =
     \<lparr>Width = 960, Format = ImageFormatPNG, JPEGQuality = 90, BackgroundColor = None,
      DPI = 96, FontDirs = [], FontCache = None\<rparr>"

text \<open>
  What the renderer calls and this development does not define is a parameter:
  \<^item> \<open>NewFontCache\<close>: the constructor of the font cache (its file is not part of the sources);
  \<^item> \<open>hexByte\<close>: \<^verbatim>\<open>fmt.Sscanf(s, "%02X", &v)\<close> of the colour accessors;
  \<^item> \<open>ReadFile\<close>, \<open>Decode\<close>: \<^verbatim>\<open>os.ReadFile\<close> and \<^verbatim>\<open>image.Decode\<close>, \<open>None\<close> standing for a
    returned error;
  \<^item> \<open>drawDecoded\<close>: the scaling and compositing of a decoded picture (lines 491-508);
  \<^item> \<open>renderOther\<close>: the rendering of the other shape kinds;
  \<^item> \<open>fillGradientLinear\<close>, \<open>fillGradientPath\<close>: the gradient fills, which use
    \<^verbatim>\<open>math.Cos\<close>, \<^verbatim>\<open>math.Sin\<close> and \<^verbatim>\<open>math.Sqrt\<close>.
\<close>

record ('fc, 'sh, 'im) externals =
  NewFontCache :: "string list \<Rightarrow> 'fc"
  hexByte :: "string \<Rightarrow> uint8"
  ReadFile :: "string \<Rightarrow> uint8 list option"
  Decode :: "uint8 list \<Rightarrow> 'im option"
  drawDecoded :: "'im \<Rightarrow> DrawingShape \<Rightarrow> int \<Rightarrow> int \<Rightarrow> int \<Rightarrow> int \<Rightarrow> 'fc renderer \<Rightarrow> panic + 'fc renderer"
  renderOther :: "'sh \<Rightarrow> 'fc renderer \<Rightarrow> panic + 'fc renderer"
  fillGradientLinear :: "Rectangle \<Rightarrow> Fill \<Rightarrow> 'fc renderer \<Rightarrow> panic + 'fc renderer"
  fillGradientPath :: "Rectangle \<Rightarrow> Fill \<Rightarrow> 'fc renderer \<Rightarrow> panic + 'fc renderer"

text \<open>\<^verbatim>\<open>argbToRGBA\<close> (line 238) with the accessors \<^verbatim>\<open>GetRed\<close> ... \<^verbatim>\<open>GetAlpha\<close>: each slices two
  characters out of the string, which panics on a string shorter than the slice.\<close>

definition argbToRGBA :: "('fc, 'sh, 'im) externals \<Rightarrow> Color \<Rightarrow> panic + RGBA" where
  "argbToRGBA ext c =
     (let s = ARGB c
      in if length s < 8 then Inl SliceOutOfRange
         else Inr \<lparr>R = hexByte ext (take 2 (drop 2 s)), G = hexByte ext (take 2 (drop 4 s)),
                   B = hexByte ext (take 2 (drop 6 s)), A = hexByte ext (take 2 s)\<rparr>)"

text \<open>\<^verbatim>\<open>emuToPixelX\<close>, \<^verbatim>\<open>emuToPixelY\<close> (lines 235-236).\<close>

definition emuToPixelX :: "'fc renderer \<Rightarrow> int \<Rightarrow> int" where
  "emuToPixelX r emu = go_int (fmul (float64_of_int emu) (scaleX r))"

definition emuToPixelY :: "'fc renderer \<Rightarrow> int \<Rightarrow> int" where
  "emuToPixelY r emu = go_int (fmul (float64_of_int emu) (scaleY r))"

section \<open>Shapes\<close>

text \<open>\<^verbatim>\<open>renderDrawing\<close> (lines 469-509). \<open>imageData\<close> is the byte slice of lines 475-480:
  the embedded data, or the contents of the file when there is no embedded data, a path
  is given and the file can be read.\<close>

definition imageData :: "('fc, 'sh, 'im) externals \<Rightarrow> DrawingShape \<Rightarrow> uint8 list" where
  "imageData ext s =
     (if length (data s) = 0 \<and> path s \<noteq> []
      then (case ReadFile ext (path s) of Some d \<Rightarrow> d | None \<Rightarrow> data s)
      else data s)"

definition placeholderGrey :: RGBA where
  "placeholderGrey = \<lparr>R = 200, G = 200, B = 200, A = 255\<rparr>"

definition renderDrawing :: "('fc, 'sh, 'im) externals \<Rightarrow> DrawingShape \<Rightarrow> 'fc renderer
      \<Rightarrow> panic + 'fc renderer" where
  "renderDrawing ext s r =
     (let x = emuToPixelX r (offsetX s);
          y = emuToPixelY r (offsetY s);
          w = emuToPixelX r (width s);
          h = emuToPixelY r (height s);
          imgData = imageData ext s
      in if length imgData = 0 then Inr r
         else case Decode ext imgData of
                None \<Rightarrow> drawRect (image_Rect x y (x + w) (y + h)) placeholderGrey 1 r
              | Some srcImg \<Rightarrow> drawDecoded ext srcImg s x y w h r)"

text \<open>\<^verbatim>\<open>renderShape\<close> (lines 214-233) and the loop over the shapes of a slide
  (lines 125-127).\<close>

fun renderShape :: "('fc, 'sh, 'im) externals \<Rightarrow> 'sh Shape \<Rightarrow> 'fc renderer \<Rightarrow> panic + 'fc renderer" where
  "renderShape ext (Drawing s) r = renderDrawing ext s r"
| "renderShape ext (OtherShape s) r = renderOther ext s r"

fun renderShapes :: "('fc, 'sh, 'im) externals \<Rightarrow> 'sh Shape list \<Rightarrow> 'fc renderer \<Rightarrow> panic + 'fc renderer" where
  "renderShapes ext [] r = Inr r"
| "renderShapes ext (shape # rest) r = then_do (renderShape ext shape r) (renderShapes ext rest)"

section \<open>SlideToImage and SlidesToImages\<close>

text \<open>\<^verbatim>\<open>%d\<close> of \<^verbatim>\<open>fmt\<close>: decimal digits, with a minus sign for a negative number.\<close>

fun show_nat :: "nat \<Rightarrow> string" where
  "show_nat n = (if n < 10 then [''0123456789'' ! n]
                 else show_nat (n div 10) @ [''0123456789'' ! (n mod 10)])"

declare show_nat.simps [simp del]

definition show_int :: "int \<Rightarrow> string" where
  "show_int i = (if i < 0 then ''-'' @ show_nat (nat (- i)) else show_nat (nat i))"

text \<open>The background of lines 104-123.\<close>

definition fillBackground :: "('fc, 'sh, 'im) externals \<Rightarrow> 'fc RenderOptions \<Rightarrow> 'sh Slide \<Rightarrow> 'fc renderer
      \<Rightarrow> panic + 'fc renderer" where
  "fillBackground ext opts slide r =
     (let white = \<lparr>R = 255, G = 255, B = 255, A = 255\<rparr>;
          bounds = Bounds (img r)
      in case BackgroundColor opts of
           Some c \<Rightarrow> fillRectFast bounds c r
         | None \<Rightarrow>
            (case background slide of
               None \<Rightarrow> fillRectFast bounds white r
             | Some f \<Rightarrow>
                 if Type f = FillSolid then
                   then_do (argbToRGBA ext (Color f)) (\<lambda>c. fillRectFast bounds c r)
                 else if Type f = FillGradientLinear then fillGradientLinear ext bounds f r
                 else if Type f = FillGradientPath then fillGradientPath ext bounds f r
                 else fillRectFast bounds white r))"

text \<open>
  \<^verbatim>\<open>SlideToImage\<close> (lines 63-130): \<open>resolve_opts\<close> is lines 67-72, \<open>new_renderer\<close> lines
  74-102. Go returns \<^verbatim>\<open>(image, error)\<close>: the model returns the
  error message on the left and the image on the right, inside the panic layer. The
  options come by pointer: the second component is the caller's struct after the call
  (\<open>None\<close> when the caller passed \<^verbatim>\<open>nil\<close>). Where \<open>CX\<close> or \<open>CY\<close> is zero the division
  gives an infinity or a NaN, whose conversion to \<^verbatim>\<open>int\<close> Go leaves to the implementation:
  the model stops there with \<open>NonFiniteFloat\<close>.
\<close>

definition resolve_opts :: "'fc RenderOptions option \<Rightarrow> 'fc RenderOptions" where
  "resolve_opts opts0 =
     (let opts1 = (case opts0 of None \<Rightarrow> DefaultRenderOptions | Some ro \<Rightarrow> ro)
      in if Width opts1 \<le> 0 then opts1\<lparr>Width := 960\<rparr> else opts1)"

definition new_renderer :: "('fc, 'sh, 'im) externals \<Rightarrow> 'sh Presentation \<Rightarrow> 'fc RenderOptions
      \<Rightarrow> 'fc renderer" where
  "new_renderer ext p opts =
     (let slideW = float64_of_int (CX (layout p));
          slideH = float64_of_int (CY (layout p));
          imgW = Width opts;
          imgH = go_int (fdiv (fmul (float64_of_int imgW) slideH) slideW);
          sx = fdiv (float64_of_int imgW) slideW;
          sy = fdiv (float64_of_int imgH) slideH;
          fc = (case FontCache opts of None \<Rightarrow> NewFontCache ext (FontDirs opts) | Some c \<Rightarrow> c);
          d = (if DPI opts \<le> 0 then 96 else DPI opts)
      in \<lparr>img = NewRGBA (image_Rect 0 0 imgW imgH), scaleX = sx, scaleY = sy,
          fontCache = Some fc, dpi = d\<rparr>)"

definition SlideToImage :: "('fc, 'sh, 'im) externals \<Rightarrow> 'sh Presentation \<Rightarrow> int \<Rightarrow> 'fc RenderOptions option
      \<Rightarrow> (panic + (string + image_RGBA)) \<times> 'fc RenderOptions option" where
  "SlideToImage ext p slideIndex opts0 =
     (if slideIndex < 0 \<or> slideIndex \<ge> int (length (slides p)) then
        (Inr (Inl (''slide index '' @ show_int slideIndex @ '' out of range (0-''
                    @ show_int (int (length (slides p)) - 1) @ '')'')), opts0)
      else
        let opts = resolve_opts opts0;
            caller = (case opts0 of None \<Rightarrow> None | Some _ \<Rightarrow> Some opts);
            slide = slides p ! nat slideIndex
        in if float64_of_int (CX (layout p)) = 0 \<or> float64_of_int (CY (layout p)) = 0
           then (Inl NonFiniteFloat, caller)
           else
             (then_do (fillBackground ext opts slide (new_renderer ext p opts)) (\<lambda>r.
              then_do (renderShapes ext (shapes slide) r) (\<lambda>r. Inr (Inr (img r)))), caller))"

text \<open>\<^verbatim>\<open>SlidesToImages\<close> (lines 133-149): the loop hands the same options struct to every
  call.\<close>

fun slides_loop :: "('fc, 'sh, 'im) externals \<Rightarrow> 'sh Presentation \<Rightarrow> nat \<Rightarrow> int \<Rightarrow> 'fc RenderOptions
      \<Rightarrow> image_RGBA list \<Rightarrow> (panic + (string + image_RGBA list)) \<times> 'fc RenderOptions" where
  "slides_loop ext p 0 i opts images = (Inr (Inr images), opts)"
| "slides_loop ext p (Suc n) i opts images =
     (case SlideToImage ext p i (Some opts) of
        (Inl e, o') \<Rightarrow> (Inl e, case o' of Some ro \<Rightarrow> ro | None \<Rightarrow> opts)
      | (Inr (Inl err), o') \<Rightarrow>
          (Inr (Inl (''slide '' @ show_int i @ '': '' @ err)), case o' of Some ro \<Rightarrow> ro | None \<Rightarrow> opts)
      | (Inr (Inr m), o') \<Rightarrow>
          slides_loop ext p n (i + 1) (case o' of Some ro \<Rightarrow> ro | None \<Rightarrow> opts) (images @ [m]))"

definition SlidesToImages :: "('fc, 'sh, 'im) externals \<Rightarrow> 'sh Presentation \<Rightarrow> 'fc RenderOptions option
      \<Rightarrow> (panic + (string + image_RGBA list)) \<times> 'fc RenderOptions option" where
  "SlidesToImages ext p opts0 =
     (let opts1 = (case opts0 of None \<Rightarrow> DefaultRenderOptions | Some ro \<Rightarrow> ro);
          opts = (if FontCache opts1 = None
                  then opts1\<lparr>FontCache := Some (NewFontCache ext (FontDirs opts1))\<rparr> else opts1);
          res = slides_loop ext p (length (slides p)) 0 opts []
      in (fst res, case opts0 of None \<Rightarrow> None | Some _ \<Rightarrow> Some (snd res)))"

section \<open>Frames: which bytes an operation may change\<close>

definition in_rect :: "Rectangle \<Rightarrow> int \<Rightarrow> int \<Rightarrow> bool" where
  "in_rect rc x y \<longleftrightarrow>
     X (Min_pt rc) \<le> x \<and> x < X (Max_pt rc) \<and> Y (Min_pt rc) \<le> y \<and> y < Y (Max_pt rc)"

definition only_changed :: "nat set \<Rightarrow> uint8 list \<Rightarrow> uint8 list \<Rightarrow> bool" where
  "only_changed S p p' \<longleftrightarrow> length p' = length p \<and> (\<forall>i < length p. i \<notin> S \<longrightarrow> p' ! i = p ! i)"

definition pixel_bytes :: "image_RGBA \<Rightarrow> Rectangle \<Rightarrow> nat set" where
  "pixel_bytes m rc =
     {nat (pix_off m x y) + k | x y k. in_canvas m x y \<and> in_rect rc x y \<and> k < 4}"

definition rows_bytes :: "image_RGBA \<Rightarrow> int \<Rightarrow> int \<Rightarrow> int \<Rightarrow> int \<Rightarrow> nat set" where
  "rows_bytes m x0 x1 y0 y1 =
     {nat (pix_off m x y) + k | x y k. x0 \<le> x \<and> x < x1 \<and> y0 \<le> y \<and> y < y1 \<and> k < 4}"

definition step_ok :: "(int \<Rightarrow> uint8 list \<times> int \<Rightarrow> panic + uint8 list \<times> int) \<Rightarrow> bool" where
  "step_ok f \<longleftrightarrow>
     (\<forall>dx pix off. 0 \<le> off \<and> off + 3 < int (length pix) \<longrightarrow>
        (\<exists>pix'. f dx (pix, off) = Inr (pix', off + 4) \<and>
                only_changed {nat off ..< nat off + 4} pix pix'))"

definition frame_in :: "Rectangle \<Rightarrow> 'fc renderer \<Rightarrow> 'fc renderer \<Rightarrow> bool" where
  "frame_in rc r r' \<longleftrightarrow>
     same_frame r r' \<and> only_changed (pixel_bytes (img r) rc) (Pix (img r)) (Pix (img r'))"

definition safe_op :: "('fc renderer \<Rightarrow> panic + 'fc renderer) \<Rightarrow> bool" where
  "safe_op f \<longleftrightarrow> (\<forall>r. canvas_ok (img r) \<longrightarrow> (\<exists>r'. f r = Inr r' \<and> same_frame r r'))"

text \<open>The parts taken as given keep the frame of the canvas, as the operations defined
  here do.\<close>

definition ext_safe :: "('fc, 'sh, 'im) externals \<Rightarrow> bool" where
  "ext_safe ext \<longleftrightarrow>
     (\<forall>s. safe_op (renderOther ext s)) \<and>
     (\<forall>im s x y w h. safe_op (drawDecoded ext im s x y w h)) \<and>
     (\<forall>rc f. safe_op (fillGradientLinear ext rc f)) \<and>
     (\<forall>rc f. safe_op (fillGradientPath ext rc f))"

text \<open>A solid background colour is a string of at least eight characters.\<close>

definition bg_ok :: "'sh Slide \<Rightarrow> bool" where
  "bg_ok slide \<longleftrightarrow>
     (case background slide of None \<Rightarrow> True
      | Some f \<Rightarrow> Type f = FillSolid \<longrightarrow> 8 \<le> length (ARGB (Color f)))"

text \<open>The width \<^verbatim>\<open>SlideToImage\<close> renders at.\<close>

definition effective_width :: "'fc RenderOptions option \<Rightarrow> int" where
  "effective_width opts0 =
     (case opts0 of None \<Rightarrow> 960 | Some ro \<Rightarrow> if Width ro \<le> 0 then 960 else Width ro)"

definition image_height :: "int \<Rightarrow> int \<Rightarrow> int \<Rightarrow> int" where
  "image_height w cx cy =
     go_int (fdiv (fmul (float64_of_int w) (float64_of_int cy)) (float64_of_int cx))"

text \<open>Width and height of the returned image, when an image is returned.\<close>

definition image_dims :: "panic + (string + image_RGBA) \<Rightarrow> (int \<times> int) option" where
  "image_dims res =
     (case res of Inr (Inr m) \<Rightarrow> Some (Dx (Bounds m), Dy (Bounds m)) | _ \<Rightarrow> None)"

text \<open>Externals that do nothing, and a presentation of one empty slide of 3 by 2 EMU.\<close>

definition demo_ext :: "(unit, unit, unit) externals" where
  "demo_ext = \<lparr>NewFontCache = (\<lambda>_. ()), hexByte = (\<lambda>_. 0), ReadFile = (\<lambda>_. None),
      Decode = (\<lambda>_. None), drawDecoded = (\<lambda>_ _ _ _ _ _. Inr), renderOther = (\<lambda>_. Inr),
      fillGradientLinear = (\<lambda>_ _. Inr), fillGradientPath = (\<lambda>_ _. Inr)\<rparr>"

definition demo_pres :: "unit Presentation" where
  "demo_pres = \<lparr>slides = [\<lparr>shapes = [], background = None\<rparr>], layout = \<lparr>CX = 3, CY = 2\<rparr>\<rparr>"

definition demo_opts :: "int \<Rightarrow> unit RenderOptions" where
  "demo_opts w = DefaultRenderOptions\<lparr>Width := w\<rparr>"

text \<open>The pixel box of a picture, as \<^verbatim>\<open>renderDrawing\<close> computes it (lines 470-473).\<close>

definition drawing_box :: "'fc renderer \<Rightarrow> DrawingShape \<Rightarrow> Rectangle" where
  "drawing_box r s =
     image_Rect (emuToPixelX r (offsetX s)) (emuToPixelY r (offsetY s))
       (emuToPixelX r (offsetX s) + emuToPixelX r (width s))
       (emuToPixelY r (offsetY s) + emuToPixelY r (height s))"

text \<open>A blank canvas of 3 by 3 pixels at scale 1, and two pictures on it: one with a
  byte that is no image, one with no data and a path that cannot be read.\<close>

definition demo_canvas :: "unit renderer" where
  "demo_canvas = \<lparr>img = NewRGBA (image_Rect 0 0 3 3), scaleX = 1, scaleY = 1,
                   fontCache = None, dpi = 96\<rparr>"

definition broken_picture :: DrawingShape where
  "broken_picture = \<lparr>offsetX = 0, offsetY = 0, width = 3, height = 3, data = [1],
      path = [], rotation = 0, flipHorizontal = False, flipVertical = False\<rparr>"

definition missing_picture :: DrawingShape where
  "missing_picture = \<lparr>offsetX = 0, offsetY = 0, width = 3, height = 3, data = [],
      path = ''missing.png'', rotation = 0, flipHorizontal = False, flipVertical = False\<rparr>"

text \<open>
  \<^verbatim>\<open>angleInSweep\<close> (lines 2193-2211). \<open>two_pi\<close> is the \<^verbatim>\<open>float64\<close> value of the constant
  \<^verbatim>\<open>2 * math.Pi\<close>, \<open>0x401921FB54442D18\<close>. The two loops of the local function \<^verbatim>\<open>norm\<close> need
  not end (an addition that rounds back to its argument repeats for ever), so they
  are partial functions and not returning is the value \<open>None\<close>.
\<close>

definition two_pi :: rat where
  "two_pi = 7074237752028440 / 2 ^ 50"

partial_function (option) norm_up :: "rat \<Rightarrow> rat option" where
  "norm_up a = (if a < 0 then norm_up (fadd a two_pi) else Some a)"

partial_function (option) norm_down :: "rat \<Rightarrow> rat option" where
  "norm_down a = (if a \<ge> two_pi then norm_down (fsub a two_pi) else Some a)"

declare norm_up.simps [code]
declare norm_down.simps [code]

definition norm_angle :: "rat \<Rightarrow> rat option" where
  "norm_angle a = Option.bind (norm_up a) norm_down"

definition angleInSweep :: "rat \<Rightarrow> rat \<Rightarrow> rat \<Rightarrow> bool option" where
  "angleInSweep angle start end =
     Option.bind (norm_angle angle) (\<lambda>a.
     Option.bind (norm_angle start) (\<lambda>s.
     Option.bind (norm_angle end) (\<lambda>e.
       Some (if s \<le> e then a \<ge> s \<and> a \<le> e else a \<ge> s \<or> a \<le> e))))"

text \<open>The \<^verbatim>\<open>float64\<close> values nearest to 0.1 and 0.2.\<close>

definition f_0_1 :: rat where "f_0_1 = 3602879701896397 / 2 ^ 55"
definition f_0_2 :: rat where "f_0_2 = 3602879701896397 / 2 ^ 54"

(*DEFS-END*)

section \<open>Blending arithmetic\<close>

lemma u8_lt: "unat (x :: uint8) < 256"
  using unsigned_less[of x, where 'a=nat] by simp

lemma unat_up: "unat (ucast (x :: uint8) :: uint32) = unat x"
  using u8_lt[of x] by (simp add: unsigned_ucast_eq take_bit_nat_eq_self)

lemma unat_ia: "unat (255 - (ucast (a :: uint8) :: uint32)) = 255 - unat a"
proof -
  have "(ucast a :: uint32) \<le> 255"
    using u8_lt[of a] by (simp add: word_le_nat_alt unat_up)
  then show ?thesis
    by (simp add: unat_sub unat_up)
qed

lemma mix_le:
  fixes s d a :: nat
  assumes "s < 256" "d < 256" "a < 256"
  shows "s * a + d * (255 - a) \<le> 255 * 255"
proof -
  have "s * a \<le> 255 * a" using assms by simp
  moreover have "d * (255 - a) \<le> 255 * (255 - a)" using assms by simp
  ultimately have "s * a + d * (255 - a) \<le> 255 * a + 255 * (255 - a)" by linarith
  also have "\<dots> = 255 * 255" using assms by simp
  finally show ?thesis .
qed

text \<open>The 32-bit sum never wraps and its quotient fits a byte, so the conversion back
  to \<^verbatim>\<open>uint8\<close> loses nothing.\<close>

lemma blend_channel:
  fixes s d a :: uint8
  shows "unat (ucast ((ucast s * (ucast a :: uint32) + ucast d * (255 - ucast a)) div 255) :: uint8)
       = (unat s * unat a + unat d * (255 - unat a)) div 255"
proof -
  let ?n = "unat s * unat a + unat d * (255 - unat a)"
  have le: "?n \<le> 255 * 255" by (rule mix_le) (rule u8_lt)+
  have m1: "unat (ucast s * (ucast a :: uint32)) = unat s * unat a"
  proof -
    have "unat s * unat a \<le> 255 * 255"
      using u8_lt[of s] u8_lt[of a] by (intro mult_mono) auto
    then have "unat (ucast s :: uint32) * unat (ucast a :: uint32) < 2 ^ LENGTH(32)"
      by (simp add: unat_up)
    then show ?thesis by (simp add: unat_mult_lem[THEN iffD1] unat_up)
  qed
  have m2: "unat (ucast d * (255 - ucast a :: uint32)) = unat d * (255 - unat a)"
  proof -
    have "unat d * (255 - unat a) \<le> 255 * 255"
      using u8_lt[of d] by (intro mult_mono) auto
    then have "unat (ucast d :: uint32) * unat (255 - ucast a :: uint32) < 2 ^ LENGTH(32)"
      by (simp add: unat_up unat_ia)
    then show ?thesis by (simp add: unat_mult_lem[THEN iffD1] unat_up unat_ia)
  qed
  have s: "unat (ucast s * (ucast a :: uint32) + ucast d * (255 - ucast a)) = ?n"
  proof -
    have "unat (ucast s * (ucast a :: uint32)) + unat (ucast d * (255 - ucast a :: uint32))
            < 2 ^ LENGTH(32)"
      using le by (simp add: m1 m2)
    then show ?thesis by (simp add: unat_add_lem[THEN iffD1] m1 m2)
  qed
  have d: "unat ((ucast s * (ucast a :: uint32) + ucast d * (255 - ucast a)) div 255) = ?n div 255"
    by (simp add: unat_div s)
  have "?n div 255 < 256" using le by simp
  then show ?thesis
    by (simp add: unsigned_ucast_eq take_bit_nat_eq_self d)
qed

lemma blend_alpha:
  fixes d a :: uint8
  shows "unat (ucast (ucast d + (255 - ucast d) * (ucast a :: uint32) div 255) :: uint8)
       = unat d + (255 - unat d) * unat a div 255"
proof -
  have m: "unat ((255 - ucast d) * (ucast a :: uint32)) = (255 - unat d) * unat a"
  proof -
    have "(255 - unat d) * unat a \<le> 255 * 255"
      using u8_lt[of a] by (intro mult_mono) auto
    then have "unat (255 - ucast d :: uint32) * unat (ucast a :: uint32) < 2 ^ LENGTH(32)"
      by (simp add: unat_up unat_ia)
    then show ?thesis by (simp add: unat_mult_lem[THEN iffD1] unat_up unat_ia)
  qed
  have q: "(255 - unat d) * unat a div 255 \<le> 255 - unat d"
  proof -
    have "(255 - unat d) * unat a \<le> (255 - unat d) * 255" using u8_lt[of a] by simp
    then have "(255 - unat d) * unat a div 255 \<le> (255 - unat d) * 255 div 255"
      by (rule div_le_mono)
    then show ?thesis by simp
  qed
  have dv: "unat ((255 - ucast d) * (ucast a :: uint32) div 255) = (255 - unat d) * unat a div 255"
    by (simp add: unat_div m)
  have s: "unat (ucast d + (255 - ucast d) * (ucast a :: uint32) div 255)
             = unat d + (255 - unat d) * unat a div 255"
  proof -
    have "unat (ucast d :: uint32) + unat ((255 - ucast d) * (ucast a :: uint32) div 255)
            < 2 ^ LENGTH(32)"
      using q u8_lt[of d] by (simp add: dv unat_up)
    then show ?thesis by (simp add: unat_add_lem[THEN iffD1] dv unat_up)
  qed
  have "unat d + (255 - unat d) * unat a div 255 < 256" using q u8_lt[of d] by linarith
  then show ?thesis
    by (simp add: unsigned_ucast_eq take_bit_nat_eq_self s)
qed

section \<open>Offsets of in-bounds pixels\<close>

lemma off_arith:
  fixes w h dx dy :: int
  assumes "0 \<le> dx" "dx + 1 \<le> w" "0 \<le> dy" "dy + 1 \<le> h"
  shows "0 \<le> dy * (4 * w) + dx * 4 \<and> dy * (4 * w) + dx * 4 + 3 < 4 * w * h"
proof -
  have w0: "0 \<le> w" using assms by linarith
  define p where "p = dy * (4 * w)"
  define q where "q = h * (4 * w)"
  have p0: "0 \<le> p" using assms w0 by (simp add: p_def)
  have "(dy + 1) * (4 * w) \<le> h * (4 * w)"
    using assms w0 by (intro mult_right_mono) auto
  then have pq: "p + 4 * w \<le> q"
    by (simp add: algebra_simps p_def q_def)
  have q: "4 * w * h = q" by (simp add: q_def)
  show ?thesis unfolding q p_def[symmetric] using p0 pq assms by linarith
qed

lemma off_range:
  assumes ok: "canvas_ok m" and inb: "in_canvas m x y"
  shows "0 \<le> pix_off m x y \<and> pix_off m x y + 3 < int (length (Pix m))"
proof -
  have st: "Stride m = 4 * Dx (Rect m)"
    and len: "int (length (Pix m)) = 4 * Dx (Rect m) * Dy (Rect m)"
    using ok by (auto simp: canvas_ok_def)
  have "0 \<le> x - X (Min_pt (Rect m))" "x - X (Min_pt (Rect m)) + 1 \<le> Dx (Rect m)"
       "0 \<le> y - Y (Min_pt (Rect m))" "y - Y (Min_pt (Rect m)) + 1 \<le> Dy (Rect m)"
    using inb by (auto simp: in_canvas_def Dx_def Dy_def)
  from off_arith[OF this] show ?thesis
    by (simp add: pix_off_def st len)
qed

section \<open>blendPixel\<close>

lemma blendPixel_in:
  assumes ok: "canvas_ok (img r)" and inb: "in_canvas (img r) x y"
  shows "blendPixel x y c r =
     (if A c = 0 then Inr r
      else if A c = 255 then
        Inr (with_pix r ((Pix (img r))[nat (pix_off (img r) x y) := R c,
              nat (pix_off (img r) x y) + 1 := G c, nat (pix_off (img r) x y) + 2 := B c,
              nat (pix_off (img r) x y) + 3 := 255]))
      else Inr (with_pix r ((Pix (img r))[
        nat (pix_off (img r) x y) :=
           ucast ((ucast (R c) * (ucast (A c) :: uint32)
                   + ucast (byte_at (img r) x y 0) * (255 - ucast (A c))) div 255),
        nat (pix_off (img r) x y) + 1 :=
           ucast ((ucast (G c) * (ucast (A c) :: uint32)
                   + ucast (byte_at (img r) x y 1) * (255 - ucast (A c))) div 255),
        nat (pix_off (img r) x y) + 2 :=
           ucast ((ucast (B c) * (ucast (A c) :: uint32)
                   + ucast (byte_at (img r) x y 2) * (255 - ucast (A c))) div 255),
        nat (pix_off (img r) x y) + 3 :=
           ucast (ucast (byte_at (img r) x y 3)
                  + (255 - ucast (byte_at (img r) x y 3)) * (ucast (A c) :: uint32) div 255)])))"
proof -
  from off_range[OF ok inb]
  have rng: "0 \<le> pix_off (img r) x y" "pix_off (img r) x y + 3 < int (length (Pix (img r)))"
    by auto
  have nb: "\<not> (x < X (Min_pt (Rect (img r))) \<or> X (Max_pt (Rect (img r))) \<le> x \<or>
               y < Y (Min_pt (Rect (img r))) \<or> Y (Max_pt (Rect (img r))) \<le> y)"
    using inb by (auto simp: in_canvas_def)
  have np: "\<not> (pix_off (img r) x y < 0 \<or> int (length (Pix (img r))) \<le> pix_off (img r) x y + 3)"
    using rng by auto
  show ?thesis
    unfolding blendPixel_def Bounds_def Let_def pix_off_def[symmetric]
    using nb np rng by (simp add: byte_at_def)
qed

lemma upd4_nth:
  assumes "i + 3 < length p"
  shows "p[i := a, i + 1 := b, i + 2 := c, i + 3 := d] ! i = a"
    and "p[i := a, i + 1 := b, i + 2 := c, i + 3 := d] ! (i + 1) = b"
    and "p[i := a, i + 1 := b, i + 2 := c, i + 3 := d] ! (i + 2) = c"
    and "p[i := a, i + 1 := b, i + 2 := c, i + 3 := d] ! (i + 3) = d"
  using assms by (simp_all add: nth_list_update)

lemma byte_at_with_pix:
  "byte_at (img (with_pix r p)) x y k = p ! (nat (pix_off (img r) x y) + k)"
  by (simp add: with_pix_def pix_off_def byte_at_def)

lemma demo_ok: "canvas_ok (img demo_renderer)"
  by (simp add: demo_renderer_def canvas_ok_def image_Rect_def Dx_def Dy_def)

text \<open>
  Claim C2. For an in-bounds pixel \<open>(x, y)\<close> of a canvas and a colour \<open>c\<close>, \<^verbatim>\<open>blendPixel\<close>
  returns normally and: leaves the renderer unchanged when \<open>c.A = 0\<close>; stores
  \<open>(c.R, c.G, c.B, 255)\<close> when \<open>c.A = 255\<close>; and otherwise sets each colour channel to
  \<open>(src * a + dst * (255 - a)) div 255\<close> and the alpha channel to
  \<open>dst_a + (255 - dst_a) * a div 255\<close>, with \<open>a = c.A\<close> and \<open>dst\<close> the previous bytes. The
  right-hand sides are over the natural numbers: nothing wraps in the 32-bit arithmetic
  and nothing is cut off by the conversion to a byte.
\<close>

theorem blendPixel_blend:
  assumes ok: "canvas_ok (img r)" and inb: "in_canvas (img r) x y"
  shows "\<exists>r'. blendPixel x y c r = Inr r' \<and>
     (A c = 0 \<longrightarrow> r' = r) \<and>
     (A c = 255 \<longrightarrow>
        byte_at (img r') x y 0 = R c \<and> byte_at (img r') x y 1 = G c \<and>
        byte_at (img r') x y 2 = B c \<and> byte_at (img r') x y 3 = 255) \<and>
     (A c \<noteq> 0 \<and> A c \<noteq> 255 \<longrightarrow>
        unat (byte_at (img r') x y 0) =
          (unat (R c) * unat (A c) + unat (byte_at (img r) x y 0) * (255 - unat (A c))) div 255 \<and>
        unat (byte_at (img r') x y 1) =
          (unat (G c) * unat (A c) + unat (byte_at (img r) x y 1) * (255 - unat (A c))) div 255 \<and>
        unat (byte_at (img r') x y 2) =
          (unat (B c) * unat (A c) + unat (byte_at (img r) x y 2) * (255 - unat (A c))) div 255 \<and>
        unat (byte_at (img r') x y 3) =
          unat (byte_at (img r) x y 3) + (255 - unat (byte_at (img r) x y 3)) * unat (A c) div 255)"
proof -
  from off_range[OF ok inb]
  have len: "nat (pix_off (img r) x y) + 3 < length (Pix (img r))" by linarith
  note u = upd4_nth[OF len]
  consider "A c = 0" | "A c = 255" | "A c \<noteq> 0" "A c \<noteq> 255" by blast
  then show ?thesis
  proof cases
    case 1
    then show ?thesis by (simp add: blendPixel_in[OF ok inb])
  next
    case 2
    then show ?thesis
      using u[of "R c" "G c" "B c" 255] by (simp add: blendPixel_in[OF ok inb] byte_at_with_pix)
  next
    case 3
    then show ?thesis
      by (simp add: blendPixel_in[OF ok inb] byte_at_with_pix u[simplified]
          blend_channel blend_alpha)
  qed
qed

theorem blendPixel_blend_witness:
  "canvas_ok (img demo_renderer) \<and> in_canvas (img demo_renderer) 1 0 \<and>
   (\<exists>r'. blendPixel 1 0 \<lparr>R = 200, G = 0, B = 255, A = 128\<rparr> demo_renderer = Inr r' \<and>
      unat (byte_at (img r') 1 0 0) = 150 \<and> unat (byte_at (img r') 1 0 1) = 54 \<and>
      unat (byte_at (img r') 1 0 2) = 187 \<and> unat (byte_at (img r') 1 0 3) = 192)"
proof -
  have inb: "in_canvas (img demo_renderer) 1 0"
    by (simp add: demo_renderer_def in_canvas_def image_Rect_def)
  have b: "byte_at (img demo_renderer) 1 0 0 = 100" "byte_at (img demo_renderer) 1 0 1 = 110"
    "byte_at (img demo_renderer) 1 0 2 = 120" "byte_at (img demo_renderer) 1 0 3 = 130"
    by (simp_all add: byte_at_def demo_renderer_def pix_off_def image_Rect_def)
  show ?thesis
    using blendPixel_blend[OF demo_ok inb, of "\<lparr>R = 200, G = 0, B = 255, A = 128\<rparr>"] demo_ok inb
    by (simp add: b b(2)[unfolded One_nat_def])
qed

lemma only_changed_refl: "only_changed S p p"
  by (simp add: only_changed_def)

lemma only_changed_trans:
  "only_changed S p p' \<Longrightarrow> only_changed T p' p'' \<Longrightarrow> only_changed (S \<union> T) p p''"
  by (auto simp: only_changed_def)

lemma only_changed_mono:
  "only_changed S p p' \<Longrightarrow> S \<subseteq> T \<Longrightarrow> only_changed T p p'"
  by (auto simp: only_changed_def)

lemma only_changed_empty: "only_changed {} p p' \<Longrightarrow> p' = p"
  by (auto simp: only_changed_def intro: nth_equalityI)

lemma then_do_Inr [simp]: "then_do (Inr v) f = f v"
  by (simp add: then_do_def)

lemma then_do_Inl [simp]: "then_do (Inl e) f = Inl e"
  by (simp add: then_do_def)

lemma iter_inv:
  assumes "I lo s"
    and "\<And>i t. lo \<le> i \<Longrightarrow> i < lo + int n \<Longrightarrow> I i t \<Longrightarrow> \<exists>t'. body i t = Inr t' \<and> I (i + 1) t'"
  shows "\<exists>s'. iter n lo body s = Inr s' \<and> I (lo + int n) s'"
  using assms
proof (induction n arbitrary: lo s)
  case 0
  then show ?case by simp
next
  case (Suc n)
  from Suc.prems(2)[of lo s] Suc.prems(1)
  obtain t where t: "body lo s = Inr t" "I (lo + 1) t" by auto
  have "\<exists>s'. iter n (lo + 1) body t = Inr s' \<and> I (lo + 1 + int n) s'"
  proof (rule Suc.IH[OF t(2)])
    fix i u assume "lo + 1 \<le> i" "i < lo + 1 + int n" "I i u"
    then show "\<exists>t'. body i u = Inr t' \<and> I (i + 1) t'"
      using Suc.prems(2)[of i u] by auto
  qed
  moreover have "lo + 1 + int n = lo + int (Suc n)" by simp
  ultimately show ?case using t by (simp del: of_nat_Suc)
qed

lemma for_range_inv:
  assumes "I lo s" and "lo \<le> hi"
    and "\<And>i t. lo \<le> i \<Longrightarrow> i < hi \<Longrightarrow> I i t \<Longrightarrow> \<exists>t'. body i t = Inr t' \<and> I (i + 1) t'"
  shows "\<exists>s'. for_range lo hi body s = Inr s' \<and> I hi s'"
proof -
  have "\<exists>s'. iter (nat (hi - lo)) lo body s = Inr s' \<and> I (lo + int (nat (hi - lo))) s'"
    by (rule iter_inv[where I = I, OF assms(1)]) (use assms in auto)
  then show ?thesis using assms(2) by (simp add: for_range_def)
qed

lemma for_range_empty: "hi \<le> lo \<Longrightarrow> for_range lo hi body s = Inr s"
  by (simp add: for_range_def)

lemma for_range_pres:
  assumes "P s"
    and "\<And>i t. lo \<le> i \<Longrightarrow> i < hi \<Longrightarrow> P t \<Longrightarrow> \<exists>t'. body i t = Inr t' \<and> P t'"
  shows "\<exists>s'. for_range lo hi body s = Inr s' \<and> P s'"
proof (cases "lo \<le> hi")
  case True
  show ?thesis
    by (rule for_range_inv[where I = "\<lambda>_. P", OF assms(1) True]) (use assms(2) in auto)
next
  case False
  then show ?thesis using assms(1) by (simp add: for_range_empty)
qed

lemma upd4_only_changed:
  "only_changed {i ..< i + 4} p (p[i := a, i + 1 := b, i + 2 := c, i + 3 := d])"
  by (auto simp: only_changed_def nth_list_update)

lemma step_ok_blend: "step_ok (blend_step a ia cr cg cb)"
  unfolding step_ok_def blend_step_def Let_def
  using upd4_only_changed by (auto simp: upd4_only_changed[simplified])

lemma step_ok_fill: "step_ok (fill_pixel c)"
  unfolding step_ok_def fill_pixel_def Let_def
  using upd4_only_changed by (auto simp: upd4_only_changed[simplified])

lemma pix_off_shift: "pix_off m (x + d) y = pix_off m x y + 4 * d"
  by (simp add: pix_off_def algebra_simps)

lemma rows_bytes_mono:
  "x0' \<le> x0 \<Longrightarrow> x1 \<le> x1' \<Longrightarrow> y0' \<le> y0 \<Longrightarrow> y1 \<le> y1' \<Longrightarrow>
   rows_bytes m x0 x1 y0 y1 \<subseteq> rows_bytes m x0' x1' y0' y1'"
  unfolding rows_bytes_def by fastforce

lemma rows_bytesI:
  "x0 \<le> x \<Longrightarrow> x < x1 \<Longrightarrow> y0 \<le> y \<Longrightarrow> y < y1 \<Longrightarrow> k < 4 \<Longrightarrow>
   nat (pix_off m x y) + k \<in> rows_bytes m x0 x1 y0 y1"
  unfolding rows_bytes_def by blast

lemma row_loop:
  assumes f: "step_ok f" and ok: "canvas_ok m" and len: "length p = length (Pix m)"
    and w: "0 \<le> w"
    and inb: "\<And>x. x0 \<le> x \<Longrightarrow> x < x0 + w \<Longrightarrow> in_canvas m x y"
  shows "\<exists>p'. then_do (for_range 0 w f (p, pix_off m x0 y)) (\<lambda>st. Inr (fst st)) = Inr p' \<and>
              only_changed (rows_bytes m x0 (x0 + w) y (y + 1)) p p'"
proof -
  define I where "I = (\<lambda>dx (st :: uint8 list \<times> int).
     snd st = pix_off m x0 y + 4 * dx \<and> only_changed (rows_bytes m x0 (x0 + dx) y (y + 1)) p (fst st))"
  have I0: "I 0 (p, pix_off m x0 y)"
    by (simp add: I_def only_changed_refl)
  have step: "\<exists>t'. f i t = Inr t' \<and> I (i + 1) t'" if i: "0 \<le> i" "i < w" and It: "I i t" for i t
  proof -
    obtain q off where t: "t = (q, off)" by (cases t)
    have e1: "pix_off m (x0 + i) y = pix_off m x0 y + 4 * i"
      and e2: "pix_off m x0 y + 4 * (i + 1) = pix_off m x0 y + 4 * i + 4"
      by (simp_all add: pix_off_shift)
    from It t have off: "off = pix_off m (x0 + i) y"
      and oc: "only_changed (rows_bytes m x0 (x0 + i) y (y + 1)) p q"
      by (auto simp: I_def e1)
    have lq: "length q = length (Pix m)" using oc len by (simp add: only_changed_def)
    have "in_canvas m (x0 + i) y" using inb[of "x0 + i"] i by simp
    from off_range[OF ok this] have rng: "0 \<le> off" "off + 3 < int (length q)"
      using off lq by auto
    from f[unfolded step_ok_def, rule_format, of off q i] rng
    obtain q' where q': "f i (q, off) = Inr (q', off + 4)"
      "only_changed {nat off ..< nat off + 4} q q'" by auto
    have sub1: "{nat off ..< nat off + 4} \<subseteq> rows_bytes m x0 (x0 + (i + 1)) y (y + 1)"
    proof
      fix j assume "j \<in> {nat off ..< nat off + 4}"
      then obtain k where "j = nat off + k" "k < 4"
        by (metis atLeastLessThan_iff le_Suc_ex nat_add_left_cancel_less)
      then show "j \<in> rows_bytes m x0 (x0 + (i + 1)) y (y + 1)"
        using off i by (auto intro!: rows_bytesI)
    qed
    have sub2: "rows_bytes m x0 (x0 + i) y (y + 1) \<subseteq> rows_bytes m x0 (x0 + (i + 1)) y (y + 1)"
      by (rule rows_bytes_mono) auto
    have "only_changed (rows_bytes m x0 (x0 + (i + 1)) y (y + 1)) p q'"
      using only_changed_mono[OF only_changed_trans[OF oc q'(2)]] sub1 sub2 by simp
    then show ?thesis using q'(1) t off unfolding I_def e2 e1[symmetric] by simp
  qed
  have "\<exists>s'. for_range 0 w f (p, pix_off m x0 y) = Inr s' \<and> I w s'"
    by (rule for_range_inv[where I = I, OF I0 w]) (rule step)
  then obtain s' where "for_range 0 w f (p, pix_off m x0 y) = Inr s'" "I w s'" by blast
  then show ?thesis by (auto simp: I_def)
qed

lemma rows_loop:
  assumes f: "step_ok f" and ok: "canvas_ok m" and len: "length p = length (Pix m)"
    and w: "0 \<le> w" and lh: "lo \<le> hi"
    and body: "\<And>i q. body i q = then_do (for_range 0 w f (q, pix_off m x0 (yb + i))) (\<lambda>st. Inr (fst st))"
    and inb: "\<And>x y. x0 \<le> x \<Longrightarrow> x < x0 + w \<Longrightarrow> yb + lo \<le> y \<Longrightarrow> y < yb + hi \<Longrightarrow> in_canvas m x y"
  shows "\<exists>p'. for_range lo hi body p = Inr p' \<and>
              only_changed (rows_bytes m x0 (x0 + w) (yb + lo) (yb + hi)) p p'"
proof -
  define I where "I = (\<lambda>i q. only_changed (rows_bytes m x0 (x0 + w) (yb + lo) (yb + i)) p q)"
  have I0: "I lo p" by (simp add: I_def only_changed_refl)
  have step: "\<exists>t'. body i t = Inr t' \<and> I (i + 1) t'" if i: "lo \<le> i" "i < hi" and It: "I i t" for i t
  proof -
    have lt: "length t = length (Pix m)" using It len by (simp add: I_def only_changed_def)
    have "\<exists>p'. then_do (for_range 0 w f (t, pix_off m x0 (yb + i))) (\<lambda>st. Inr (fst st)) = Inr p' \<and>
              only_changed (rows_bytes m x0 (x0 + w) (yb + i) (yb + i + 1)) t p'"
      by (rule row_loop[OF f ok lt w]) (use inb i in auto)
    then obtain t' where t': "body i t = Inr t'"
      "only_changed (rows_bytes m x0 (x0 + w) (yb + i) (yb + i + 1)) t t'"
      by (auto simp: body)
    have s1: "rows_bytes m x0 (x0 + w) (yb + lo) (yb + i) \<subseteq> rows_bytes m x0 (x0 + w) (yb + lo) (yb + (i + 1))"
      by (rule rows_bytes_mono) auto
    have s2: "rows_bytes m x0 (x0 + w) (yb + i) (yb + i + 1) \<subseteq> rows_bytes m x0 (x0 + w) (yb + lo) (yb + (i + 1))"
      by (rule rows_bytes_mono) (use i in auto)
    have "I (i + 1) t'"
      unfolding I_def
      using only_changed_mono[OF only_changed_trans[OF It[unfolded I_def] t'(2)]] s1 s2 by simp
    then show ?thesis using t'(1) by blast
  qed
  have "\<exists>s'. for_range lo hi body p = Inr s' \<and> I hi s'"
    by (rule for_range_inv[where I = I, OF I0 lh]) (rule step)
  then show ?thesis by (simp add: I_def)
qed

lemma in_rect_Intersect:
  "in_rect (Intersect a b) x y \<longleftrightarrow> in_rect a x y \<and> in_rect b x y"
  by (auto simp: Intersect_def Let_def in_rect_def Empty_def ZR_def)

lemma not_Empty_iff: "\<not> Empty rc \<longleftrightarrow> X (Min_pt rc) < X (Max_pt rc) \<and> Y (Min_pt rc) < Y (Max_pt rc)"
  by (auto simp: Empty_def)

lemma in_canvas_in_rect: "in_canvas m x y \<longleftrightarrow> in_rect (Bounds m) x y"
  by (simp add: in_canvas_def in_rect_def Bounds_def)

lemma rows_bytes_sub_pixel_bytes:
  assumes "\<And>x y. in_rect rc' x y \<Longrightarrow> in_rect rc x y \<and> in_canvas m x y"
  shows "rows_bytes m (X (Min_pt rc')) (X (Max_pt rc')) (Y (Min_pt rc')) (Y (Max_pt rc')) \<subseteq> pixel_bytes m rc"
  unfolding rows_bytes_def pixel_bytes_def using assms by (fastforce simp: in_rect_def)

lemma with_pix_frame:
  "length p = length (Pix (img r)) \<Longrightarrow> same_frame r (with_pix r p)"
  by (simp add: same_frame_def with_pix_def)

lemma same_frame_refl: "same_frame r r"
  by (simp add: same_frame_def with_pix_def)

lemma frame_in_refl: "frame_in rc r r"
  by (simp add: frame_in_def same_frame_refl only_changed_refl)

lemma frame_in_with_pix:
  "only_changed (pixel_bytes (img r) rc) (Pix (img r)) p \<Longrightarrow> frame_in rc r (with_pix r p)"
  by (simp add: frame_in_def same_frame_def with_pix_def only_changed_def)

lemma fillRectFast_frame:
  assumes ok: "canvas_ok (img r)"
  shows "\<exists>r'. fillRectFast rect c r = Inr r' \<and> frame_in rect r r'"
proof (cases "Empty (draw_clip (img r) rect)")
  case True
  then show ?thesis by (simp add: fillRectFast_def frame_in_refl)
next
  case False
  define rc where "rc = draw_clip (img r) rect"
  have ne: "X (Min_pt rc) < X (Max_pt rc)" "Y (Min_pt rc) < Y (Max_pt rc)"
    using False by (auto simp: rc_def not_Empty_iff)
  have sub: "in_rect rect x y \<and> in_canvas (img r) x y" if "in_rect rc x y" for x y
    using that by (simp add: rc_def draw_clip_def in_rect_Intersect in_canvas_in_rect)
  have "\<exists>p'. for_range (Y (Min_pt rc)) (Y (Max_pt rc)) (fill_row (img r) rc c) (Pix (img r)) = Inr p' \<and>
     only_changed (rows_bytes (img r) (X (Min_pt rc)) (X (Min_pt rc) + Dx rc)
                    (0 + Y (Min_pt rc)) (0 + Y (Max_pt rc))) (Pix (img r)) p'"
  proof (rule rows_loop[OF step_ok_fill[of c] ok])
    show "fill_row (img r) rc c i q =
        then_do (for_range 0 (Dx rc) (fill_pixel c) (q, pix_off (img r) (X (Min_pt rc)) (0 + i)))
          (\<lambda>st. Inr (fst st))" for i q
      by (simp add: fill_row_def)
    show "in_canvas (img r) x y"
      if "X (Min_pt rc) \<le> x" "x < X (Min_pt rc) + Dx rc" "0 + Y (Min_pt rc) \<le> y" "y < 0 + Y (Max_pt rc)"
      for x y
      using sub[of x y] that by (simp add: in_rect_def Dx_def)
  qed (use ne in \<open>auto simp: Dx_def\<close>)
  then obtain p' where p': "for_range (Y (Min_pt rc)) (Y (Max_pt rc)) (fill_row (img r) rc c) (Pix (img r)) = Inr p'"
    "only_changed (rows_bytes (img r) (X (Min_pt rc)) (X (Max_pt rc)) (Y (Min_pt rc)) (Y (Max_pt rc))) (Pix (img r)) p'"
    by (auto simp: Dx_def)
  have "only_changed (pixel_bytes (img r) rect) (Pix (img r)) p'"
    by (rule only_changed_mono[OF p'(2) rows_bytes_sub_pixel_bytes]) (use sub in auto)
  then show ?thesis
    using False p'(1) by (simp add: fillRectFast_def rc_def[symmetric] frame_in_with_pix)
qed

lemma fillRectBlend_frame:
  assumes ok: "canvas_ok (img r)"
  shows "\<exists>r'. fillRectBlend rect c r = Inr r' \<and> frame_in rect r r'"
proof -
  define rc where "rc = Intersect rect (Bounds (img r))"
  have sub: "in_rect rect x y \<and> in_canvas (img r) x y" if "in_rect rc x y" for x y
    using that by (simp add: rc_def in_rect_Intersect in_canvas_in_rect)
  consider "Empty rc" | "\<not> Empty rc" "A c = 0" | "\<not> Empty rc" "A c = 255"
    | "\<not> Empty rc" "A c \<noteq> 0" "A c \<noteq> 255" by blast
  then show ?thesis
  proof cases
    case 1
    then show ?thesis by (simp add: fillRectBlend_def rc_def[symmetric] frame_in_refl)
  next
    case 2
    then show ?thesis by (simp add: fillRectBlend_def rc_def[symmetric] frame_in_refl)
  next
    case 3
    from fillRectFast_frame[OF ok, of rc c]
    obtain r' where r': "fillRectFast rc c r = Inr r'" "frame_in rc r r'" by blast
    have "pixel_bytes (img r) rc \<subseteq> pixel_bytes (img r) rect"
      unfolding pixel_bytes_def using sub by blast
    then have "frame_in rect r r'"
      using r'(2) by (auto simp: frame_in_def intro: only_changed_mono)
    then show ?thesis using 3 r'(1) by (simp add: fillRectBlend_def rc_def[symmetric])
  next
    case 4
    have ne: "X (Min_pt rc) < X (Max_pt rc)" "Y (Min_pt rc) < Y (Max_pt rc)"
      using 4(1) by (auto simp: not_Empty_iff)
    define a where "a = (ucast (A c) :: uint32)"
    define body where "body = blend_row a (255 - a) (ucast (R c) * a) (ucast (G c) * a) (ucast (B c) * a)
        (Stride (img r)) (X (Min_pt rc) - X (Min_pt (Bounds (img r))))
        (Y (Min_pt rc) - Y (Min_pt (Bounds (img r)))) (Dx rc)"
    have "\<exists>p'. for_range 0 (Dy rc) body (Pix (img r)) = Inr p' \<and>
       only_changed (rows_bytes (img r) (X (Min_pt rc)) (X (Min_pt rc) + Dx rc)
                      (Y (Min_pt rc) + 0) (Y (Min_pt rc) + Dy rc)) (Pix (img r)) p'"
    proof (rule rows_loop[OF step_ok_blend[of a "255 - a" "ucast (R c) * a" "ucast (G c) * a" "ucast (B c) * a"] ok])
      show "body i q =
          then_do (for_range 0 (Dx rc)
             (blend_step a (255 - a) (ucast (R c) * a) (ucast (G c) * a) (ucast (B c) * a))
             (q, pix_off (img r) (X (Min_pt rc)) (Y (Min_pt rc) + i)))
            (\<lambda>st. Inr (fst st))" for i q
        by (simp add: body_def blend_row_def pix_off_def Bounds_def algebra_simps)
      show "in_canvas (img r) x y"
        if "X (Min_pt rc) \<le> x" "x < X (Min_pt rc) + Dx rc" "Y (Min_pt rc) + 0 \<le> y" "y < Y (Min_pt rc) + Dy rc"
        for x y
        using sub[of x y] that by (simp add: in_rect_def Dx_def Dy_def)
    qed (use ne in \<open>auto simp: Dx_def Dy_def\<close>)
    then obtain p' where p': "for_range 0 (Dy rc) body (Pix (img r)) = Inr p'"
      "only_changed (rows_bytes (img r) (X (Min_pt rc)) (X (Max_pt rc)) (Y (Min_pt rc)) (Y (Max_pt rc))) (Pix (img r)) p'"
      by (auto simp: Dx_def Dy_def)
    have "only_changed (pixel_bytes (img r) rect) (Pix (img r)) p'"
      by (rule only_changed_mono[OF p'(2) rows_bytes_sub_pixel_bytes]) (use sub in auto)
    then show ?thesis
      using 4 p'(1)
      by (simp add: fillRectBlend_def rc_def[symmetric] Let_def body_def a_def frame_in_with_pix)
  qed
qed

lemma blendPixel_out: "\<not> in_canvas (img r) x y \<Longrightarrow> blendPixel x y c r = Inr r"
  by (auto simp: blendPixel_def in_canvas_def Bounds_def)

lemma blendPixelF_out: "\<not> in_canvas (img r) x y \<Longrightarrow> blendPixelF x y c cov r = Inr r"
  by (simp add: blendPixelF_def blendPixel_out)

lemma pixel_bytes_one:
  assumes "in_canvas m x y" "0 \<le> pix_off m x y"
  shows "{nat (pix_off m x y) ..< nat (pix_off m x y) + 4} \<subseteq> pixel_bytes m (image_Rect x y (x + 1) (y + 1))"
proof
  fix j assume "j \<in> {nat (pix_off m x y) ..< nat (pix_off m x y) + 4}"
  then obtain k where k: "j = nat (pix_off m x y) + k" "k < 4"
    by (metis atLeastLessThan_iff le_Suc_ex nat_add_left_cancel_less)
  have "in_rect (image_Rect x y (x + 1) (y + 1)) x y"
    by (simp add: in_rect_def image_Rect_def)
  then show "j \<in> pixel_bytes m (image_Rect x y (x + 1) (y + 1))"
    unfolding pixel_bytes_def using assms(1) k by blast
qed

lemma blendPixel_frame:
  assumes ok: "canvas_ok (img r)"
  shows "\<exists>r'. blendPixel x y c r = Inr r' \<and> frame_in (image_Rect x y (x + 1) (y + 1)) r r'"
proof (cases "in_canvas (img r) x y")
  case False
  then show ?thesis by (simp add: blendPixel_out frame_in_refl)
next
  case True
  from off_range[OF ok True] have rng: "0 \<le> pix_off (img r) x y" by simp
  note sub = pixel_bytes_one[OF True rng]
  have oc: "only_changed (pixel_bytes (img r) (image_Rect x y (x + 1) (y + 1))) (Pix (img r))
        ((Pix (img r))[nat (pix_off (img r) x y) := a, nat (pix_off (img r) x y) + 1 := b,
           nat (pix_off (img r) x y) + 2 := d, nat (pix_off (img r) x y) + 3 := e])" for a b d e
    by (rule only_changed_mono[OF upd4_only_changed sub])
  show ?thesis
    unfolding blendPixel_in[OF ok True]
    using oc by (auto simp: oc[simplified] intro!: frame_in_with_pix frame_in_refl)
qed

lemma blendPixelF_frame:
  assumes ok: "canvas_ok (img r)"
  shows "\<exists>r'. blendPixelF x y c cov r = Inr r' \<and> frame_in (image_Rect x y (x + 1) (y + 1)) r r'"
  unfolding blendPixelF_def using blendPixel_frame[OF ok] by (auto simp: frame_in_refl)

lemma with_pix_simps [simp]:
  "Pix (img (with_pix r p)) = p"
  "Stride (img (with_pix r p)) = Stride (img r)"
  "Rect (img (with_pix r p)) = Rect (img r)"
  "with_pix (with_pix r p) q = with_pix r q"
  by (simp_all add: with_pix_def)

lemma same_frame_iff:
  "same_frame r r' \<longleftrightarrow> (\<exists>p. length p = length (Pix (img r)) \<and> r' = with_pix r p)"
  unfolding same_frame_def by (metis with_pix_simps(1))

lemma same_frame_trans: "same_frame r r' \<Longrightarrow> same_frame r' r'' \<Longrightarrow> same_frame r r''"
  unfolding same_frame_iff by auto

lemma same_frame_ok: "same_frame r r' \<Longrightarrow> canvas_ok (img r) \<Longrightarrow> canvas_ok (img r')"
  unfolding same_frame_iff by (auto simp: canvas_ok_def)

lemma safe_opI:
  "(\<And>r. canvas_ok (img r) \<Longrightarrow> \<exists>r'. f r = Inr r' \<and> same_frame r r') \<Longrightarrow> safe_op f"
  by (simp add: safe_op_def)

lemma safe_opD:
  "safe_op f \<Longrightarrow> canvas_ok (img r) \<Longrightarrow> \<exists>r'. f r = Inr r' \<and> same_frame r r'"
  by (simp add: safe_op_def)

lemma safe_blendPixel: "safe_op (blendPixel x y c)"
  by (rule safe_opI) (use blendPixel_frame in \<open>fastforce simp: frame_in_def\<close>)

lemma safe_blendPixelF: "safe_op (blendPixelF x y c cov)"
  by (rule safe_opI) (use blendPixelF_frame in \<open>fastforce simp: frame_in_def\<close>)

lemma safe_fillRectBlend: "safe_op (fillRectBlend rect c)"
  by (rule safe_opI) (use fillRectBlend_frame in \<open>fastforce simp: frame_in_def\<close>)

lemma safe_fillRectFast: "safe_op (fillRectFast rect c)"
  by (rule safe_opI) (use fillRectFast_frame in \<open>fastforce simp: frame_in_def\<close>)

lemma safe_skip: "safe_op Inr"
  by (rule safe_opI) (simp add: same_frame_refl)

lemma safe_seq:
  assumes "safe_op f" "safe_op g"
  shows "safe_op (\<lambda>r. then_do (f r) g)"
proof (rule safe_opI)
  fix r :: "'a renderer" assume ok: "canvas_ok (img r)"
  from safe_opD[OF assms(1) ok] obtain r1 where r1: "f r = Inr r1" "same_frame r r1" by blast
  from safe_opD[OF assms(2) same_frame_ok[OF r1(2) ok]]
  obtain r2 where r2: "g r1 = Inr r2" "same_frame r1 r2" by blast
  show "\<exists>r'. then_do (f r) g = Inr r' \<and> same_frame r r'"
    using r1 r2 same_frame_trans by auto
qed

lemma safe_for:
  assumes "\<And>i. lo \<le> i \<Longrightarrow> i < hi \<Longrightarrow> safe_op (body i)"
  shows "safe_op (for_range lo hi body)"
proof (rule safe_opI)
  fix r :: "'a renderer" assume ok: "canvas_ok (img r)"
  show "\<exists>r'. for_range lo hi body r = Inr r' \<and> same_frame r r'"
  proof (rule for_range_pres[where P = "\<lambda>t. same_frame r t"])
    show "same_frame r r" by (rule same_frame_refl)
    fix i t assume i: "lo \<le> i" "i < hi" and t: "same_frame r t"
    from safe_opD[OF assms[OF i] same_frame_ok[OF t ok]]
    obtain t' where "body i t = Inr t'" "same_frame t t'" by blast
    then show "\<exists>t'. body i t = Inr t' \<and> same_frame r t'"
      using same_frame_trans[OF t] by blast
  qed
qed

lemma safe_drawRect: "safe_op (drawRect rect c wd)"
  unfolding drawRect_def
  by (intro safe_for safe_seq safe_fillRectBlend safe_blendPixel)

lemma safe_dashedH:
  assumes "dashLen + gapLen \<noteq> 0"
  shows "safe_op (drawDashedHLine x1 x2 y c dashLen gapLen)"
  unfolding drawDashedHLine_def Let_def
  by (intro safe_for safe_opI) (use assms safe_opD[OF safe_blendPixel] in \<open>auto simp: go_rem_def same_frame_refl\<close>)

lemma safe_dashedV:
  assumes "dashLen + gapLen \<noteq> 0"
  shows "safe_op (drawDashedVLine x y1 y2 c dashLen gapLen)"
  unfolding drawDashedVLine_def Let_def
  by (intro safe_for safe_opI) (use assms safe_opD[OF safe_blendPixel] in \<open>auto simp: go_rem_def same_frame_refl\<close>)

lemma safe_drawRectBorder:
  "safe_op (drawRectBorder rect c wd style :: 'fc renderer \<Rightarrow> panic + 'fc renderer)"
proof (cases "style = BorderSolid \<or> style = BorderNone")
  case True
  then have "(drawRectBorder rect c wd style :: 'fc renderer \<Rightarrow> panic + 'fc renderer)
      = drawRect rect c wd"
    by (auto simp: drawRectBorder_def fun_eq_iff)
  then show ?thesis by (simp add: safe_drawRect)
next
  case False
  then show ?thesis
    unfolding drawRectBorder_def Let_def
    by (simp only: if_False) (intro safe_for safe_seq safe_dashedH safe_dashedV; simp)
qed

lemma frame_in_none:
  assumes "frame_in rc r r'" "\<And>u v. in_rect rc u v \<Longrightarrow> \<not> in_canvas (img r) u v"
  shows "r' = r"
proof -
  have "pixel_bytes (img r) rc = {}"
    unfolding pixel_bytes_def using assms(2) by blast
  then have "Pix (img r') = Pix (img r)"
    using assms(1) by (simp add: frame_in_def only_changed_empty)
  then show ?thesis
    using assms(1) by (simp add: frame_in_def same_frame_def with_pix_def)
qed



section \<open>Properties of the rounding\<close>

lemma pow2_pos: "0 < (2::rat) powi e"
  by simp

lemma pow2_mono: "e \<le> e' \<Longrightarrow> (2::rat) powi e \<le> 2 powi e'"
  by (rule power_int_increasing) auto

lemma pow2_strict_mono: "e < e' \<Longrightarrow> (2::rat) powi e < 2 powi e'"
  by (rule power_int_strict_increasing) auto

lemma pow2_less_iff: "(2::rat) powi e < 2 powi e' \<longleftrightarrow> e < e'"
  by (meson leD leI pow2_mono pow2_strict_mono)

lemma pow2_add: "(2::rat) powi (a + b) = 2 powi a * 2 powi b"
  by (simp add: power_int_add)

lemma pow2_diff: "(2::rat) powi (a - b) = 2 powi a / 2 powi b"
  by (simp add: power_int_diff)

lemma ilog2_bounds:
  assumes "0 < q"
  shows "2 powi (ilog2 q) \<le> q \<and> q < 2 powi (ilog2 q + 1)"
proof -
  obtain a b where ab: "quotient_of q = (a, b)" by (cases "quotient_of q")
  have b: "0 < b" using quotient_of_denom_pos[OF ab] .
  have q: "q = of_int a / of_int b" using quotient_of_div[OF ab] .
  have a: "0 < a" using assms b q by (simp add: zero_less_divide_iff)
  define la lb where "la = bitlen a" and "lb = bitlen b"
  from bitlen_bounds[OF a] have A: "2 ^ nat (la - 1) \<le> a" "a < 2 ^ nat la" by (auto simp: la_def)
  from bitlen_bounds[OF b] have B: "2 ^ nat (lb - 1) \<le> b" "b < 2 ^ nat lb" by (auto simp: lb_def)
  have la: "1 \<le> la" using a A(2) by (cases "la \<le> 0") auto
  have lb: "1 \<le> lb" using b B(2) by (cases "lb \<le> 0") auto
  have Ar: "(2::rat) powi (la - 1) \<le> of_int a" "of_int a < (2::rat) powi la"
  proof -
    have "(of_int (2 ^ nat (la - 1)) :: rat) \<le> of_int a" using A(1) by (simp only: of_int_le_iff)
    then show "(2::rat) powi (la - 1) \<le> of_int a" using la by (simp add: power_int_nonneg_exp)
    have "(of_int a :: rat) < of_int (2 ^ nat la)" using A(2) by (simp only: of_int_less_iff)
    then show "of_int a < (2::rat) powi la" using la by (simp add: power_int_nonneg_exp)
  qed
  have Br: "(2::rat) powi (lb - 1) \<le> of_int b" "of_int b < (2::rat) powi lb"
  proof -
    have "(of_int (2 ^ nat (lb - 1)) :: rat) \<le> of_int b" using B(1) by (simp only: of_int_le_iff)
    then show "(2::rat) powi (lb - 1) \<le> of_int b" using lb by (simp add: power_int_nonneg_exp)
    have "(of_int b :: rat) < of_int (2 ^ nat lb)" using B(2) by (simp only: of_int_less_iff)
    then show "of_int b < (2::rat) powi lb" using lb by (simp add: power_int_nonneg_exp)
  qed
  have br: "(0::rat) < of_int b" using b by simp
  have lo: "2 powi (la - lb - 1) < q"
  proof -
    have "2 powi (la - lb - 1) * (of_int b :: rat) < 2 powi (la - lb - 1) * 2 powi lb"
      using Br(2) by simp
    also have "\<dots> = 2 powi (la - 1)" by (simp add: pow2_add[symmetric])
    also have "\<dots> \<le> of_int a" by (rule Ar(1))
    finally show ?thesis using br by (simp add: q pos_less_divide_eq)
  qed
  have hi: "q < 2 powi (la - lb + 1)"
  proof -
    have "of_int a < (2::rat) powi la" by (rule Ar(2))
    also have "\<dots> = 2 powi (la - lb + 1) * 2 powi (lb - 1)" by (simp add: pow2_add[symmetric])
    also have "\<dots> \<le> 2 powi (la - lb + 1) * of_int b" using Br(1) by simp
    finally show ?thesis using br by (simp add: q pos_divide_less_eq)
  qed
  show ?thesis
    using lo hi by (auto simp: ilog2_def ab la_def lb_def Let_def not_le)
qed

lemma ilog2_unique:
  assumes "2 powi e \<le> q" "q < 2 powi (e + 1)"
  shows "ilog2 q = e"
proof -
  have q: "0 < q" using assms(1) pow2_pos[of e] by linarith
  note b = ilog2_bounds[OF q]
  have "2 powi e < (2::rat) powi (ilog2 q + 1)" using assms(1) b by linarith
  then have 1: "e \<le> ilog2 q" by (simp add: pow2_less_iff)
  have "2 powi (ilog2 q) < (2::rat) powi (e + 1)" using assms(2) b by linarith
  then have 2: "ilog2 q \<le> e" by (simp add: pow2_less_iff)
  from 1 2 show ?thesis by simp
qed

lemma rhe_of_int: "round_half_even (of_int n) = n"
  by (simp add: round_half_even_def)

lemma rhe_ge_floor: "\<lfloor>x\<rfloor> \<le> round_half_even x"
  by (simp add: round_half_even_def Let_def)

lemma rhe_le_ceil: "round_half_even x \<le> \<lfloor>x\<rfloor> + 1"
  by (simp add: round_half_even_def Let_def)

lemma rhe_mono:
  assumes "x \<le> y"
  shows "round_half_even x \<le> round_half_even y"
proof (cases "\<lfloor>x\<rfloor> = \<lfloor>y\<rfloor>")
  case True
  then have "x - of_int \<lfloor>x\<rfloor> \<le> y - of_int \<lfloor>y\<rfloor>" using assms by simp
  then show ?thesis
    using True by (auto simp: round_half_even_def Let_def)
next
  case False
  then have "\<lfloor>x\<rfloor> < \<lfloor>y\<rfloor>" using floor_mono[OF assms] by linarith
  then have "round_half_even x \<le> \<lfloor>y\<rfloor>" using rhe_le_ceil[of x] by linarith
  then show ?thesis using rhe_ge_floor[of y] by linarith
qed

lemma rhe_le_int: "x \<le> of_int n \<Longrightarrow> round_half_even x \<le> n"
  using rhe_mono[of x "of_int n"] by (simp add: rhe_of_int)

lemma rhe_ge_int: "of_int n \<le> x \<Longrightarrow> n \<le> round_half_even x"
  using rhe_mono[of "of_int n" x] by (simp add: rhe_of_int)

lemma quantum_pos: "0 < quantum q"
  by (simp add: quantum_def pow2_pos)

lemma f64_0 [simp]: "f64 0 = 0"
  by (simp add: f64_def)

lemma quantum_minus [simp]: "quantum (- q) = quantum q"
  by (simp add: quantum_def)

lemma f64_minus: "f64 (- q) = - f64 q"
  by (simp add: f64_def sgn_minus)

lemma f64_pos: "0 < q \<Longrightarrow> f64 q = of_int (round_half_even (q / quantum q)) * quantum q"
  by (simp add: f64_def)

lemma f64_upper:
  assumes q: "0 < q"
  shows "f64 q \<le> 2 powi (max (ilog2 q) (- 1022) + 1)"
proof -
  define e where "e = max (ilog2 q) (- 1022)"
  have u: "quantum q = 2 powi (e - 52)" using q by (simp add: quantum_def e_def)
  have up: "(0::rat) < 2 powi (e - 52)" by (rule pow2_pos)
  from ilog2_bounds[OF q] have "q < 2 powi (ilog2 q + 1)" by simp
  also have "\<dots> \<le> 2 powi (e + 1)" by (rule pow2_mono) (simp add: e_def)
  finally have b: "q < 2 powi (e + 1)" .
  have hi_int: "(2::rat) powi (e + 1) / 2 powi (e - 52) = of_int (2 ^ 53)"
    by (simp add: pow2_diff[symmetric])
  have "q / 2 powi (e - 52) \<le> 2 powi (e + 1) / 2 powi (e - 52)"
    using b up by (simp add: divide_right_mono)
  then have "round_half_even (q / 2 powi (e - 52)) \<le> 2 ^ 53"
    unfolding hi_int by (rule rhe_le_int)
  then have "(of_int (round_half_even (q / 2 powi (e - 52))) :: rat) \<le> of_int (2 ^ 53)"
    by (simp only: of_int_le_iff)
  then have "of_int (round_half_even (q / 2 powi (e - 52))) * (2::rat) powi (e - 52)
      \<le> of_int (2 ^ 53) * 2 powi (e - 52)"
    using up by (intro mult_right_mono) simp_all
  also have "of_int (2 ^ 53) * (2::rat) powi (e - 52) = 2 powi (e + 1)"
    using hi_int up by (simp add: field_simps)
  finally show ?thesis by (simp add: f64_pos[OF q] u e_def[symmetric])
qed

lemma f64_lower:
  assumes q: "0 < q" and n: "- 1022 \<le> ilog2 q"
  shows "2 powi (ilog2 q) \<le> f64 q"
proof -
  define e where "e = ilog2 q"
  have u: "quantum q = 2 powi (e - 52)" using q n by (simp add: quantum_def e_def max_def)
  have up: "(0::rat) < 2 powi (e - 52)" by (rule pow2_pos)
  from ilog2_bounds[OF q] have b: "2 powi e \<le> q" by (simp add: e_def)
  have li: "(2::rat) powi e / 2 powi (e - 52) = of_int (2 ^ 52)"
    by (simp add: pow2_diff[symmetric])
  have "2 powi e / 2 powi (e - 52) \<le> q / 2 powi (e - 52)"
    using b up by (simp add: divide_right_mono)
  then have "2 ^ 52 \<le> round_half_even (q / 2 powi (e - 52))"
    unfolding li by (rule rhe_ge_int)
  then have "(of_int (2 ^ 52) :: rat) \<le> of_int (round_half_even (q / 2 powi (e - 52)))"
    by (simp only: of_int_le_iff)
  then have le: "of_int (2 ^ 52) * (2::rat) powi (e - 52)
      \<le> of_int (round_half_even (q / 2 powi (e - 52))) * 2 powi (e - 52)"
    using up by (intro mult_right_mono) simp_all
  have "(2::rat) powi e = of_int (2 ^ 52) * 2 powi (e - 52)"
    using li up by (simp add: field_simps)
  also note le
  finally show ?thesis by (simp add: f64_pos[OF q] u e_def[symmetric])
qed

lemma f64_nonneg: "0 \<le> q \<Longrightarrow> 0 \<le> f64 q"
proof -
  assume "0 \<le> q"
  have "0 \<le> round_half_even (q / quantum q)"
    by (rule rhe_ge_int) (use \<open>0 \<le> q\<close> quantum_pos[of q] in simp)
  then show ?thesis using quantum_pos[of q] \<open>0 \<le> q\<close> by (cases "q = 0") (simp_all add: f64_pos)
qed

lemma ilog2_mono:
  assumes "0 < x" "x \<le> y"
  shows "ilog2 x \<le> ilog2 y"
proof -
  have y: "0 < y" using assms by linarith
  from ilog2_bounds[OF assms(1)] ilog2_bounds[OF y]
  have "2 powi (ilog2 x) < (2::rat) powi (ilog2 y + 1)" using assms(2) by linarith
  then show ?thesis by (simp add: pow2_less_iff)
qed

lemma f64_mono_pos:
  assumes x: "0 < x" and xy: "x \<le> y"
  shows "f64 x \<le> f64 y"
proof -
  have y: "0 < y" using assms by linarith
  define kx ky where "kx = max (ilog2 x) (- 1022)" and "ky = max (ilog2 y) (- 1022)"
  have le: "kx \<le> ky" using ilog2_mono[OF x xy] by (simp add: kx_def ky_def)
  show ?thesis
  proof (cases "kx = ky")
    case True
    then have u: "quantum y = quantum x" using x y by (simp add: quantum_def kx_def ky_def)
    have "x / quantum x \<le> y / quantum x" using xy quantum_pos[of x] by (simp add: divide_right_mono)
    then have "round_half_even (x / quantum x) \<le> round_half_even (y / quantum x)" by (rule rhe_mono)
    then have "(of_int (round_half_even (x / quantum x)) :: rat) \<le> of_int (round_half_even (y / quantum x))"
      by (simp only: of_int_le_iff)
    then show ?thesis
      using quantum_pos[of x] by (simp add: f64_pos[OF x] f64_pos[OF y] u mult_right_mono)
  next
    case False
    then have lt: "kx < ky" using le by simp
    then have ny: "- 1022 \<le> ilog2 y" "ky = ilog2 y" by (auto simp: kx_def ky_def)
    have "f64 x \<le> 2 powi (kx + 1)" using f64_upper[OF x] by (simp add: kx_def)
    also have "\<dots> \<le> 2 powi (ilog2 y)" by (rule pow2_mono) (use lt ny in simp)
    also have "\<dots> \<le> f64 y" by (rule f64_lower[OF y ny(1)])
    finally show ?thesis .
  qed
qed

lemma f64_mono:
  assumes "x \<le> y"
  shows "f64 x \<le> f64 y"
proof -
  consider "0 < x" | "x \<le> 0" "0 \<le> y" | "y < 0" using assms by linarith
  then show ?thesis
  proof cases
    case 1
    then show ?thesis by (rule f64_mono_pos[OF _ assms])
  next
    case 2
    have "f64 x \<le> 0" using f64_nonneg[of "- x"] 2(1) by (simp add: f64_minus)
    then show ?thesis using f64_nonneg[OF 2(2)] by linarith
  next
    case 3
    have "f64 (- y) \<le> f64 (- x)" by (rule f64_mono_pos) (use 3 assms in auto)
    then show ?thesis by (simp add: f64_minus)
  qed
qed

text \<open>Values with at most 53 significant bits are not changed by the rounding.\<close>

lemma f64_exact_pos:
  assumes m: "0 < m" "m < 2 ^ 53" and k: "- 1074 \<le> k"
  shows "f64 (of_int m * 2 powi k) = of_int m * 2 powi k"
proof -
  define q :: rat where "q = of_int m * 2 powi k"
  have q: "0 < q" using m by (simp add: q_def pow2_pos)
  define e where "e = ilog2 q"
  from ilog2_bounds[OF q] have "2 powi e \<le> q" by (simp add: e_def)
  also have "q < of_int (2 ^ 53) * 2 powi k"
  proof -
    have "(of_int m :: rat) < of_int (2 ^ 53)" using m(2) by (simp only: of_int_less_iff)
    then show ?thesis unfolding q_def using pow2_pos[of k] by (intro mult_strict_right_mono) simp_all
  qed
  also have "\<dots> = 2 powi (53 + k)" by (simp add: pow2_add)
  finally have "e < 53 + k" by (simp add: pow2_less_iff)
  then have d: "0 \<le> k - (max e (- 1022) - 52)" using k by simp
  define j where "j = nat (k - (max e (- 1022) - 52))"
  have u: "quantum q = 2 powi (max e (- 1022) - 52)" using q by (simp add: quantum_def e_def)
  have "2 powi k / quantum q = (2::rat) powi (k - (max e (- 1022) - 52))"
    by (simp add: u pow2_diff)
  also have "\<dots> = 2 ^ j" using d by (simp add: j_def power_int_nonneg_exp)
  finally have r: "2 powi k / quantum q = (2::rat) ^ j" .
  have "q / quantum q = of_int m * (2 powi k / quantum q)" by (simp add: q_def)
  also have "\<dots> = of_int (m * 2 ^ j)" by (simp add: r)
  finally have qi: "q / quantum q = of_int (m * 2 ^ j)" .
  have "f64 q = of_int (m * 2 ^ j) * quantum q"
    by (simp only: f64_pos[OF q] qi rhe_of_int)
  also have "\<dots> = q / quantum q * quantum q" by (simp only: qi)
  also have "\<dots> = q" using quantum_pos[of q] by simp
  finally show ?thesis by (simp add: q_def)
qed

lemma f64_exact:
  assumes m: "\<bar>m\<bar> < 2 ^ 53" and k: "- 1074 \<le> k"
  shows "f64 (of_int m * 2 powi k) = of_int m * 2 powi k"
proof -
  consider "m = 0" | "0 < m" | "m < 0" by linarith
  then show ?thesis
  proof cases
    case 1 then show ?thesis by simp
  next
    case 2 then show ?thesis using f64_exact_pos[of m k] m k by simp
  next
    case 3
    then have "f64 (of_int (- m) * 2 powi k) = of_int (- m) * 2 powi k"
      using f64_exact_pos[of "- m" k] m k by simp
    then show ?thesis using f64_minus[of "of_int m * 2 powi k"] by simp
  qed
qed

lemma f64_of_int: "\<bar>n\<bar> < 2 ^ 53 \<Longrightarrow> f64 (of_int n) = of_int n"
  using f64_exact[of n 0] by simp

lemma go_int_nonneg: "0 \<le> q \<Longrightarrow> go_int q = \<lfloor>q\<rfloor>"
  by (simp add: go_int_def)

lemma float64_of_int_exact: "\<bar>n\<bar> < 2 ^ 53 \<Longrightarrow> float64_of_int n = of_int n"
  by (simp add: float64_of_int_def f64_of_int)

lemma floor_f64_div:
  fixes a b :: int
  assumes a: "0 \<le> a" and b: "0 < b" and s: "a + b \<le> 2 ^ 52"
  shows "\<lfloor>f64 (of_int a / of_int b)\<rfloor> = a div b"
proof -
  define n where "n = a div b"
  define j where "j = bitlen b"
  have n0: "0 \<le> n" using a b by (simp add: n_def pos_imp_zdiv_nonneg_iff)
  have dm: "a = n * b + a mod b" by (simp add: n_def)
  have md: "0 \<le> a mod b" "a mod b < b" using b by simp_all
  have nb: "n * b \<le> a" "a < n * b + b" using dm md by linarith+
  from bitlen_bounds[OF b] have B: "2 ^ nat (j - 1) \<le> b" "b < 2 ^ nat j" by (auto simp: j_def)
  have j1: "1 \<le> j" using b B(2) by (cases "j \<le> 0") auto
  have B2: "(2::int) ^ nat j \<le> 2 * b"
  proof -
    have "nat j = Suc (nat (j - 1))" using j1 by linarith
    then have "(2::int) ^ nat j = 2 * 2 ^ nat (j - 1)" by simp
    then show ?thesis using B(1) by simp
  qed
  define m where "m = (n + 1) * 2 ^ nat j - 1"
  have "(n + 1) * 2 ^ nat j \<le> (n + 1) * (2 * b)" using B2 n0 by (intro mult_left_mono) auto
  also have "\<dots> = 2 * (n * b + b)" by (simp add: algebra_simps)
  also have "\<dots> \<le> 2 * (a + b)" using nb(1) by simp
  also have "\<dots> \<le> 2 ^ 53" using s by simp
  finally have mhi: "m < 2 ^ 53" by (simp add: m_def)
  have "(2::int) ^ 1 \<le> 2 ^ nat j" by (rule power_increasing) (use j1 in auto)
  then have "(1::int) * 2 \<le> (n + 1) * 2 ^ nat j"
    using n0 by (intro mult_mono) auto
  then have mlo: "0 < m" by (simp add: m_def)
  have jhi: "j \<le> 1074"
  proof (rule ccontr)
    assume "\<not> j \<le> 1074"
    then have "53 \<le> nat (j - 1)" by simp
    then have "(2::int) ^ 53 \<le> 2 ^ nat (j - 1)" by (rule power_increasing) simp
    moreover have "(2::int) ^ 52 < 2 ^ 53" by simp
    ultimately show False using B(1) s a by linarith
  qed
  define r :: rat where "r = of_int m * 2 powi (- j)"
  have rex: "f64 r = r"
    unfolding r_def by (rule f64_exact) (use mlo mhi jhi in auto)
  have pj: "(2::rat) powi (- j) = 1 / 2 ^ nat j"
    using j1 by (simp add: power_int_minus_divide power_int_nonneg_exp)
  have r: "r = of_int (n + 1) - 1 / 2 ^ nat j"
    by (simp add: r_def m_def pj field_simps)
  have bpos: "(0::rat) < of_int b" using b by simp
  have "b \<le> 2 ^ nat j" using B(2) by simp
  then have "(of_int b :: rat) \<le> of_int (2 ^ nat j)" by (simp only: of_int_le_iff)
  then have inv: "1 / (2::rat) ^ nat j \<le> 1 / of_int b"
    using bpos by (simp add: frac_le)
  have "a \<le> n * b + b - 1" using nb(2) by simp
  then have "(of_int a :: rat) \<le> of_int (n * b + b - 1)" by (simp only: of_int_le_iff)
  then have "(of_int a :: rat) / of_int b \<le> of_int (n * b + b - 1) / of_int b"
    using bpos by (simp add: divide_right_mono)
  also have "\<dots> = of_int (n + 1) - 1 / of_int b"
    using bpos by (simp add: field_simps)
  also have "\<dots> \<le> r" using inv by (simp add: r)
  finally have le_r: "(of_int a :: rat) / of_int b \<le> r" .
  have up: "f64 (of_int a / of_int b) < of_int (n + 1)"
  proof -
    have "f64 (of_int a / of_int b) \<le> f64 r" by (rule f64_mono[OF le_r])
    also have "\<dots> = r" by (rule rex)
    also have "\<dots> < of_int (n + 1)" by (simp add: r)
    finally show ?thesis .
  qed
  have "(of_int (n * b) :: rat) \<le> of_int a" using nb(1) by (simp only: of_int_le_iff)
  then have "(of_int n :: rat) \<le> of_int a / of_int b"
    using bpos by (simp add: pos_le_divide_eq)
  then have "f64 (of_int n) \<le> f64 (of_int a / of_int b)" by (rule f64_mono)
  moreover have "f64 (of_int n) = of_int n"
  proof (rule f64_of_int)
    have "n * 1 \<le> n * b" using n0 b by (intro mult_left_mono) auto
    then show "\<bar>n\<bar> < 2 ^ 53" using n0 nb(1) s b by simp
  qed
  ultimately have lo: "of_int n \<le> f64 (of_int a / of_int b)" by simp
  show ?thesis unfolding n_def[symmetric]
    by (rule floor_unique) (use lo up in auto)
qed

section \<open>SlideToImage: errors, width, height and options\<close>

lemma NewRGBA_ok: "canvas_ok (NewRGBA (image_Rect 0 0 w h))"
proof -
  have "0 \<le> Dx (image_Rect 0 0 w h)" "0 \<le> Dy (image_Rect 0 0 w h)"
    by (simp_all add: Dx_def Dy_def image_Rect_def)
  then have "0 \<le> 4 * Dx (image_Rect 0 0 w h) * Dy (image_Rect 0 0 w h)" by simp
  then show ?thesis
    by (simp add: canvas_ok_def NewRGBA_def) (simp add: image_Rect_def min_def max_def)
qed

lemma safe_renderDrawing:
  assumes "ext_safe ext"
  shows "safe_op (renderDrawing ext s)"
proof (rule safe_opI)
  fix r :: "'a renderer" assume ok: "canvas_ok (img r)"
  show "\<exists>r'. renderDrawing ext s r = Inr r' \<and> same_frame r r'"
    unfolding renderDrawing_def Let_def
    using safe_opD[OF safe_drawRect ok] assms safe_opD[OF _ ok]
    by (auto simp: same_frame_refl ext_safe_def split: option.splits)
qed

lemma safe_renderShape:
  assumes "ext_safe ext"
  shows "safe_op (renderShape ext shape)"
proof (cases shape)
  case (Drawing s)
  then have "renderShape ext shape = renderDrawing ext s" by (simp add: fun_eq_iff)
  then show ?thesis using safe_renderDrawing[OF assms] by simp
next
  case (OtherShape s)
  then have "renderShape ext shape = renderOther ext s" by (simp add: fun_eq_iff)
  then show ?thesis using assms by (simp add: ext_safe_def)
qed

lemma safe_renderShapes:
  assumes "ext_safe ext"
  shows "safe_op (renderShapes ext shs)"
proof (induction shs)
  case Nil
  have "renderShapes ext [] = Inr" by (simp add: fun_eq_iff)
  then show ?case by (simp add: safe_skip)
next
  case (Cons a shs)
  have "renderShapes ext (a # shs) = (\<lambda>r. then_do (renderShape ext a r) (renderShapes ext shs))"
    by (simp add: fun_eq_iff)
  then show ?case using safe_seq[OF safe_renderShape[OF assms] Cons.IH] by simp
qed

lemma safe_fillBackground:
  assumes "ext_safe ext" "bg_ok slide"
  shows "safe_op (fillBackground ext opts slide)"
proof (rule safe_opI)
  fix r :: "'a renderer" assume ok: "canvas_ok (img r)"
  show "\<exists>r'. fillBackground ext opts slide r = Inr r' \<and> same_frame r r'"
    unfolding fillBackground_def Let_def
    using assms safe_opD[OF safe_fillRectFast ok] safe_opD[OF _ ok]
    by (auto simp: ext_safe_def bg_ok_def argbToRGBA_def Let_def split: option.splits)
qed

lemma f64_pos_ge1:
  assumes "1 \<le> q"
  shows "0 < f64 q"
proof -
  have q: "0 < q" using assms by linarith
  have "ilog2 1 = 0" by (rule ilog2_unique) simp_all
  then have "0 \<le> ilog2 q" using ilog2_mono[of 1 q] assms by simp
  then have "- 1022 \<le> ilog2 q" by linarith
  from f64_lower[OF q this] pow2_pos[of "ilog2 q"] show ?thesis by linarith
qed

lemma float64_of_int_pos: "0 < n \<Longrightarrow> 0 < float64_of_int n"
  unfolding float64_of_int_def by (rule f64_pos_ge1) simp

lemma then_do_cases:
  "then_do m f = Inr v \<longleftrightarrow> (\<exists>u. m = Inr u \<and> f u = Inr v)"
  by (cases m) auto

lemma Width_resolve: "Width (resolve_opts opts0) = effective_width opts0"
  by (auto simp: resolve_opts_def effective_width_def DefaultRenderOptions_def Let_def
      split: option.splits)

lemma img_new_renderer:
  "img (new_renderer ext p opts) =
     NewRGBA (image_Rect 0 0 (Width opts) (image_height (Width opts) (CX (layout p)) (CY (layout p))))"
  by (simp add: new_renderer_def Let_def image_height_def)

lemma SlideToImage_in_range:
  assumes i: "0 \<le> i" "i < int (length (slides p))"
  shows "snd (SlideToImage ext p i opts0) =
           (case opts0 of None \<Rightarrow> None | Some ro \<Rightarrow> Some (resolve_opts (Some ro)))"
    and "\<not> (\<exists>msg. fst (SlideToImage ext p i opts0) = Inr (Inl msg))"
proof -
  show "snd (SlideToImage ext p i opts0) =
           (case opts0 of None \<Rightarrow> None | Some ro \<Rightarrow> Some (resolve_opts (Some ro)))"
    using i by (simp add: SlideToImage_def Let_def split: option.splits)
  show "\<not> (\<exists>msg. fst (SlideToImage ext p i opts0) = Inr (Inl msg))"
    using i by (auto simp: SlideToImage_def Let_def then_do_def split: sum.splits)
qed

lemma render_chain:
  fixes ext :: "('fc, 'sh, 'im) externals" and r0 :: "'fc renderer"
  assumes ext: "ext_safe ext" and bg: "bg_ok slide"
    and r0: "img r0 = NewRGBA (image_Rect 0 0 w h)"
  shows "\<exists>m. then_do (fillBackground ext opts slide r0)
               (\<lambda>r. then_do (renderShapes ext (shapes slide) r) (\<lambda>r. Inr (Inr (img r))))
             = Inr (Inr m) \<and> canvas_ok m \<and> Rect m = image_Rect 0 0 w h"
proof -
  have ok0: "canvas_ok (img r0)" by (simp add: r0 NewRGBA_ok)
  from safe_opD[OF safe_fillBackground[OF ext bg] ok0]
  obtain r1 where r1: "fillBackground ext opts slide r0 = Inr r1" "same_frame r0 r1"
    by blast
  from safe_opD[OF safe_renderShapes[OF ext] same_frame_ok[OF r1(2) ok0]]
  obtain r2 where r2: "renderShapes ext (shapes slide) r1 = Inr r2" "same_frame r1 r2"
    by blast
  have sf: "same_frame r0 r2" by (rule same_frame_trans[OF r1(2) r2(2)])
  have "Rect (img r2) = Rect (img r0)" using sf by (auto simp: same_frame_iff)
  then have "Rect (img r2) = image_Rect 0 0 w h" by (simp add: r0 NewRGBA_def)
  moreover have "canvas_ok (img r2)" by (rule same_frame_ok[OF sf ok0])
  ultimately show ?thesis by (simp add: r1 r2)
qed

lemma SlideToImage_renders:
  fixes ext :: "('fc, 'sh, 'im) externals" and opts0 :: "'fc RenderOptions option"
  assumes i: "0 \<le> i" "i < int (length (slides p))"
    and ext: "ext_safe ext" and bg: "bg_ok (slides p ! nat i)"
    and c: "0 < CX (layout p)" "0 < CY (layout p)"
  shows "\<exists>m. fst (SlideToImage ext p i opts0) = Inr (Inr m) \<and> canvas_ok m \<and>
             Rect m = image_Rect 0 0 (effective_width opts0)
                        (image_height (effective_width opts0) (CX (layout p)) (CY (layout p)))"
proof -
  have nz: "float64_of_int (CX (layout p)) \<noteq> 0" "float64_of_int (CY (layout p)) \<noteq> 0"
    using float64_of_int_pos[OF c(1)] float64_of_int_pos[OF c(2)] by auto
  have eq: "fst (SlideToImage ext p i opts0) =
      then_do (fillBackground ext (resolve_opts opts0) (slides p ! nat i)
                 (new_renderer ext p (resolve_opts opts0)))
        (\<lambda>r. then_do (renderShapes ext (shapes (slides p ! nat i)) r) (\<lambda>r. Inr (Inr (img r))))"
    using i nz by (simp add: SlideToImage_def Let_def)
  show ?thesis
    unfolding eq
    by (rule render_chain[OF ext bg]) (simp add: img_new_renderer Width_resolve)
qed

lemma demo_ext_safe: "ext_safe demo_ext"
  by (simp add: ext_safe_def demo_ext_def safe_skip)

lemma demo_bg_ok: "bg_ok (slides demo_pres ! 0)"
  by (simp add: bg_ok_def demo_pres_def)

lemma image_height_exact:
  assumes "0 < w" "0 < cx" "0 < cy" "w * cy + cx \<le> 2 ^ 52"
  shows "image_height w cx cy = w * cy div cx"
proof -
  have wc: "w * 1 \<le> w * cy" "1 * cy \<le> w * cy"
    using assms by (auto intro!: mult_left_mono mult_right_mono)
  have p: "(2::int) ^ 52 < 2 ^ 53" by simp
  have b: "\<bar>w\<bar> < 2 ^ 53" "\<bar>cx\<bar> < 2 ^ 53" "\<bar>cy\<bar> < 2 ^ 53" "\<bar>w * cy\<bar> < 2 ^ 53"
    using assms wc p by linarith+
  have e: "float64_of_int w = of_int w" "float64_of_int cx = of_int cx"
    "float64_of_int cy = of_int cy"
    by (rule float64_of_int_exact[OF b(1)], rule float64_of_int_exact[OF b(2)],
        rule float64_of_int_exact[OF b(3)])
  have m: "fmul (of_int w) (of_int cy) = of_int (w * cy)"
    using f64_of_int[OF b(4)] by (simp add: fmul_def)
  have ih: "image_height w cx cy = go_int (f64 (of_int (w * cy) / of_int cx))"
    unfolding image_height_def e m fdiv_def ..
  have nn: "0 \<le> w * cy" using assms by simp
  have "0 \<le> f64 (of_int (w * cy) / of_int cx)"
    by (rule f64_nonneg) (use nn assms in simp)
  then have "go_int (f64 (of_int (w * cy) / of_int cx)) = \<lfloor>f64 (of_int (w * cy) / of_int cx)\<rfloor>"
    by (rule go_int_nonneg)
  also have "\<dots> = w * cy div cx" by (rule floor_f64_div[OF nn assms(2) assms(4)])
  finally show ?thesis by (simp only: ih)
qed

lemma image_dims_Rect:
  assumes "res = Inr (Inr m)" "Rect m = image_Rect 0 0 w h" "0 \<le> w" "0 \<le> h"
  shows "image_dims res = Some (w, h)"
  using assms by (simp add: image_dims_def Bounds_def Dx_def Dy_def image_Rect_def)

lemma effective_width_pos: "0 < effective_width opts0"
  by (auto simp: effective_width_def split: option.splits)




lemma image_dims_width:
  assumes "res = Inr (Inr m)" "Rect m = image_Rect 0 0 w h" "0 \<le> w"
  shows "\<exists>h'. image_dims res = Some (w, h')"
  using assms by (simp add: image_dims_def Bounds_def Dx_def image_Rect_def)



lemma FontCache_resolve: "FontCache (resolve_opts (Some ro)) = FontCache ro"
  "FontDirs (resolve_opts (Some ro)) = FontDirs ro"
  by (simp_all add: resolve_opts_def Let_def)

lemma snd_SlideToImage_Some:
  "\<exists>x. snd (SlideToImage ext p i (Some ro)) = Some x \<and> FontCache x = FontCache ro"
  by (simp add: SlideToImage_def Let_def FontCache_resolve)

lemma slides_loop_FontCache:
  "FontCache (snd (slides_loop ext p n i opts acc)) = FontCache opts"
proof (induction n arbitrary: i opts acc)
  case 0
  then show ?case by simp
next
  case (Suc n)
  obtain res o' where ro: "SlideToImage ext p i (Some opts) = (res, o')"
    by (cases "SlideToImage ext p i (Some opts)")
  from snd_SlideToImage_Some[of ext p i opts] ro
  obtain x where x: "o' = Some x" "FontCache x = FontCache opts" by auto
  show ?case
    using Suc.IH x by (simp add: ro split: sum.splits)
qed



section \<open>Pictures without data and pictures that do not decode\<close>

lemma renderDrawing_cases:
  "renderDrawing ext s r =
     (if imageData ext s = [] then Inr r
      else case Decode ext (imageData ext s) of
             None \<Rightarrow> drawRect (drawing_box r s) placeholderGrey 1 r
           | Some srcImg \<Rightarrow>
               drawDecoded ext srcImg s (emuToPixelX r (offsetX s)) (emuToPixelY r (offsetY s))
                 (emuToPixelX r (width s)) (emuToPixelY r (height s)) r)"
  by (simp add: renderDrawing_def Let_def drawing_box_def split: option.splits)



text \<open>
  Claim C10. A picture with no embedded data whose path is empty or cannot be read leaves
  the renderer as it was: \<^verbatim>\<open>renderDrawing\<close> returns before anything is drawn, and so it does
  whenever the bytes it ends up with are empty. When the bytes are there and decode, the
  decoded picture is drawn; the grey outline is drawn in the one remaining case, bytes
  that do not decode.
\<close>

theorem no_bytes_no_placeholder:
  fixes ext :: "('fc, 'sh, 'im) externals" and r :: "'fc renderer"
  shows "(data s = [] \<and> (path s = [] \<or> ReadFile ext (path s) = None) \<longrightarrow>
            renderDrawing ext s r = Inr r) \<and>
         (imageData ext s = [] \<longrightarrow> renderDrawing ext s r = Inr r) \<and>
         (imageData ext s \<noteq> [] \<and> Decode ext (imageData ext s) = Some srcImg \<longrightarrow>
            renderDrawing ext s r =
              drawDecoded ext srcImg s (emuToPixelX r (offsetX s)) (emuToPixelY r (offsetY s))
                (emuToPixelX r (width s)) (emuToPixelY r (height s)) r) \<and>
         (imageData ext s \<noteq> [] \<and> Decode ext (imageData ext s) = None \<longrightarrow>
            renderDrawing ext s r = drawRect (drawing_box r s) placeholderGrey 1 r)"
proof -
  have "imageData ext s = []" if "data s = [] \<and> (path s = [] \<or> ReadFile ext (path s) = None)"
    using that by (auto simp: imageData_def)
  then show ?thesis by (auto simp: renderDrawing_cases)
qed

theorem no_bytes_no_placeholder_witness:
  "data missing_picture = [] \<and> ReadFile demo_ext (path missing_picture) = None \<and>
   renderDrawing demo_ext missing_picture demo_canvas = Inr demo_canvas"
proof -
  have a: "data missing_picture = []" "ReadFile demo_ext (path missing_picture) = None"
    by (simp_all add: missing_picture_def demo_ext_def)
  show ?thesis
    using no_bytes_no_placeholder[of missing_picture demo_ext demo_canvas] a by blast
qed

section \<open>angleInSweep and full turns\<close>

lemma two_pi_pos: "0 < two_pi"
  by (simp add: two_pi_def)

lemma norm_angle_shift:
  assumes fa: "f64 a = a" and ex: "fadd a two_pi = a + two_pi"
  shows "norm_angle (fadd a two_pi) = norm_angle a"
proof (cases "a < 0")
  case True
  then have "norm_up a = norm_up (fadd a two_pi)"
    by (subst norm_up.simps) simp
  then show ?thesis by (simp add: norm_angle_def)
next
  case False
  then have up: "norm_up a = Some a" by (subst norm_up.simps) simp
  have "\<not> a + two_pi < 0" using False two_pi_pos by linarith
  then have up': "norm_up (a + two_pi) = Some (a + two_pi)" by (subst norm_up.simps) simp
  have "two_pi \<le> a + two_pi" using False by simp
  then have "norm_down (a + two_pi) = norm_down (fsub (a + two_pi) two_pi)"
    by (subst norm_down.simps) simp
  also have "fsub (a + two_pi) two_pi = a" by (simp add: fsub_def fa)
  finally show ?thesis by (simp add: norm_angle_def up up' ex)
qed




end
